theory Spec2Isabelle
  imports Complex_Main
begin

section \<open>Numbers\<close>

text \<open>
  The program computes with JavaScript numbers, which are IEEE 754 binary64 values. A
  number is modelled by the real that it denotes, and a number that the code keeps
  integral (a count, a total, an entry of an allocation) by an \<open>int\<close>.

  \<open>fl\<close> is the rounding that every arithmetic operation applies to its exact result:
  to the nearest value with a significand of 53 bits, ties to the even significand. The
  exponent is not bounded, so \<open>fl\<close> is the rounding of binary64 for every result whose
  magnitude is in the normal range, from \<open>2 powi - 1022\<close> to below \<open>2 powi 1024\<close>.
  (Below that range binary64 rounds to multiples of \<open>2 powi - 1074\<close>, above it to
  infinity.) \<open>add_int\<close> and \<open>sub_int\<close> are the rounded sum and difference of two
  integral numbers: the rounded result is integral again, and exact up to \<open>2 ^ 53\<close>.
  The allocators take any reals as weights; the numbers of the code are among them.
  \<open>bit_length n\<close> is the number of binary digits of \<open>n\<close>, and \<open>binade x\<close> the exponent
  \<open>k\<close> with \<open>2 powi k \<le> \<bar>x\<bar> < 2 powi (k + 1)\<close>.
\<close>

function bit_length :: "int \<Rightarrow> int" where
  "bit_length n = (if n \<le> 0 then 0 else bit_length (n div 2) + 1)"
  by pat_completeness auto
termination
  by (relation "measure (\<lambda>n. nat n)") auto

declare bit_length.simps [simp del]

definition binade :: "real \<Rightarrow> int" where
  "binade x =
     (if 1 \<le> \<bar>x\<bar> then bit_length \<lfloor>\<bar>x\<bar>\<rfloor> - 1
      else - bit_length (\<lceil>1 / \<bar>x\<bar>\<rceil> - 1))"

definition round_even :: "real \<Rightarrow> int" where
  "round_even y =
     (let f = \<lfloor>y\<rfloor>; d = y - of_int f
      in if d < 1 / 2 then f else if 1 / 2 < d then f + 1 else if even f then f else f + 1)"

definition fl :: "real \<Rightarrow> real" where
  "fl x =
     (if x = 0 then 0
      else (let e = binade x - 52
            in of_int (round_even (x / power_int 2 e)) * power_int 2 e))"

definition add_int :: "int \<Rightarrow> int \<Rightarrow> int" where
  "add_int a b = \<lfloor>fl (of_int a + of_int b)\<rfloor>"

definition sub_int :: "int \<Rightarrow> int \<Rightarrow> int" where
  "sub_int a b = \<lfloor>fl (of_int a - of_int b)\<rfloor>"

text \<open>
  \<open>Math.floor\<close> and \<open>Math.round\<close> are exact on every number: the floor, and the nearest
  integer with ties towards plus infinity. \<open>reduce((a, b) => a + b, 0)\<close> is a left fold
  from 0; \<open>reduce_add_int\<close> is that fold over integral numbers, each addition rounded.
\<close>

definition Math_floor :: "real \<Rightarrow> int" where
  "Math_floor v = \<lfloor>v\<rfloor>"

definition Math_round :: "real \<Rightarrow> int" where
  "Math_round v = \<lfloor>v + 1 / 2\<rfloor>"

definition reduce_add_int :: "int list \<Rightarrow> int" where
  "reduce_add_int xs = foldl add_int 0 xs"

text \<open>
  The weight generators are kept in exact arithmetic (\<open>reduce_add\<close> is the exact fold):
  what is stated about their result is stated up to a tolerance, and the allocators below
  are stated for every weight vector within such a tolerance.
\<close>

definition reduce_add :: "'a::monoid_add list \<Rightarrow> 'a" where
  "reduce_add xs = foldl (\<lambda>a b. a + b) 0 xs"

text \<open>
  \<open>Math.random()\<close> is an input of the model: a function \<open>rnd\<close> from the number of the
  call to the value in \<open>[0, 1)\<close> that the call returned. \<open>constant_draws u\<close> is the
  source that returns \<open>u\<close> at every call, used in the examples.
\<close>

definition constant_draws :: "real \<Rightarrow> nat \<Rightarrow> real" where
  "constant_draws u k = u"

section \<open>The largest-remainder variant (unnamed/part_000)\<close>

datatype DistributionStyle = Balanced | Moderate | High

text \<open>
  One iteration of the loop of \<open>generateWeights\<close>: the weight drawn for a bucket from the
  value \<open>u\<close> that \<open>Math.random()\<close> returned, with the guard \<open>if (w <= 0) w = 0.0001\<close>.
\<close>

definition draw_weight :: "DistributionStyle \<Rightarrow> real \<Rightarrow> real" where
  "draw_weight style u =
     (let w = (case style of
                 Balanced \<Rightarrow> (let noise = (u - 0.5) * 0.2 in 1 + noise)
               | Moderate \<Rightarrow> 0.5 + u
               | High \<Rightarrow> - ln (u + 1 / 10 ^ 9))
      in if w \<le> 0 then 0.0001 else w)"

text \<open>
  The \<open>for\<close> loop; \<open>rnd k\<close> is the value of the \<open>k\<close>-th call of \<open>Math.random()\<close>
  (every iteration makes exactly one call).
\<close>

function generateWeights_loop ::
  "DistributionStyle \<Rightarrow> (nat \<Rightarrow> real) \<Rightarrow> int \<Rightarrow> int \<Rightarrow> real list \<Rightarrow> real list" where
  "generateWeights_loop style rnd count i raw =
     (if i < count
      then generateWeights_loop style rnd count (i + 1) (raw @ [draw_weight style (rnd (nat i))])
      else raw)"
  by pat_completeness auto
termination
  by (relation "measure (\<lambda>(style, rnd, count, i, raw). nat (count - i))") auto

declare generateWeights_loop.simps [simp del]

definition generateWeights :: "int \<Rightarrow> DistributionStyle \<Rightarrow> (nat \<Rightarrow> real) \<Rightarrow> real list" where
  "generateWeights count style rnd =
     (if count \<le> 0 then []
      else (let raw = generateWeights_loop style rnd count 0 [];
                sum = reduce_add raw
            in map (\<lambda>v. v / sum) raw))"

text \<open>
  The \<open>while\<close> loop of \<open>distributeIntegerTotal\<close>, on the entries \<open>(idx, frac)\<close> sorted by
  fractional part. It returns its whole final state: the result, the remainder and \<open>i\<close>.
  \<open>result[frac[i].idx] += 1\<close> and \<open>remainder--\<close> are rounded as every other operation.
\<close>

function award_loop ::
  "(nat \<times> real) list \<Rightarrow> int \<Rightarrow> nat \<Rightarrow> int list \<Rightarrow> int list \<times> int \<times> nat" where
  "award_loop fr remainder i result =
     (if remainder > 0 \<and> i < length fr
      then award_loop fr (sub_int remainder 1) (i + 1)
             (result[fst (fr ! i) := add_int (result ! fst (fr ! i)) 1])
      else (result, remainder, i))"
  by pat_completeness auto
termination
  by (relation "measure (\<lambda>(fr, remainder, i, result). length fr - i)") auto

declare award_loop.simps [simp del]

text \<open>
  \<open>frac.sort((a, b) => b.frac - a.frac)\<close>: a stable sort, descending by fractional part
  (entries with equal fractional parts keep their index order).
\<close>

definition sort_frac :: "(nat \<times> real) list \<Rightarrow> (nat \<times> real) list" where
  "sort_frac fr = sort_key (\<lambda>e. - snd e) fr"

text \<open>
  \<open>rawValues.map((v, idx) => ({idx, frac: v - floors[idx]}))\<close>: one entry per bucket,
  in index order.
\<close>

definition frac_entries :: "real list \<Rightarrow> int list \<Rightarrow> (nat \<times> real) list" where
  "frac_entries rawValues floors =
     map (\<lambda>idx. (idx, fl (rawValues ! idx - of_int (floors ! idx)))) [0 ..< length rawValues]"

definition distributeIntegerTotal :: "int \<Rightarrow> real list \<Rightarrow> int list" where
  "distributeIntegerTotal tot weights =
     (if tot \<le> 0 \<or> length weights = 0 then map (\<lambda>w. 0) weights
      else (let rawValues = map (\<lambda>w. fl (w * of_int tot)) weights;
                floors = map Math_floor rawValues;
                assigned = reduce_add_int floors;
                remainder = sub_int tot assigned;
                frac = sort_frac (frac_entries rawValues floors)
            in fst (award_loop frac remainder 0 floors)))"

section \<open>The running-remainder variant (app/page.tsx)\<close>

datatype VarianceLevel = VBalanced | VMedium | VHigh

definition variance_factor :: "VarianceLevel \<Rightarrow> real" where
  "variance_factor variance = (case variance of VBalanced \<Rightarrow> 0.2 | VMedium \<Rightarrow> 1.0 | VHigh \<Rightarrow> 3.0)"

function generateWeights_page_loop ::
  "real \<Rightarrow> (nat \<Rightarrow> real) \<Rightarrow> int \<Rightarrow> int \<Rightarrow> real list \<Rightarrow> real list" where
  "generateWeights_page_loop factor rnd count i weights =
     (if i < count
      then generateWeights_page_loop factor rnd count (i + 1)
             (weights @ [1 + rnd (nat i) * factor])
      else weights)"
  by pat_completeness auto
termination
  by (relation "measure (\<lambda>(factor, rnd, count, i, weights). nat (count - i))") auto

declare generateWeights_page_loop.simps [simp del]

definition generateWeights_page :: "int \<Rightarrow> VarianceLevel \<Rightarrow> (nat \<Rightarrow> real) \<Rightarrow> real list" where
  "generateWeights_page count variance rnd =
     (if count \<le> 0 then []
      else (let factor = variance_factor variance;
                weights = generateWeights_page_loop factor rnd count 0 [];
                sum = reduce_add weights
            in map (\<lambda>w. w / sum) weights))"

function distribute_loop ::
  "int \<Rightarrow> real list \<Rightarrow> nat \<Rightarrow> int \<Rightarrow> int list \<Rightarrow> int list" where
  "distribute_loop tot weights i remaining result =
     (if i < length weights
      then (if i = length weights - 1
            then distribute_loop tot weights (i + 1) remaining (result[i := remaining])
            else (let raw = fl (of_int tot * weights ! i);
                      value = Math_round raw
                  in distribute_loop tot weights (i + 1) (sub_int remaining value)
                       (result[i := value])))
      else result)"
  by pat_completeness auto
termination
  by (relation "measure (\<lambda>(tot, weights, i, remaining, result). length weights - i)") auto

declare distribute_loop.simps [simp del]

definition distribute :: "int \<Rightarrow> real list \<Rightarrow> int list" where
  "distribute tot weights =
     (if tot \<le> 0 \<or> length weights = 0 then replicate (length weights) 0
      else distribute_loop tot weights 0 tot (replicate (length weights) 0))"

section \<open>CSV export\<close>

text \<open>
  Strings are lists of characters. \<open>String(v)\<close> of an integer number of magnitude below
  \<open>10 ^ 21\<close> is its decimal numeral, with a minus sign when negative; from \<open>10 ^ 21\<close> on
  the code writes an exponent, which \<open>String_number\<close> does not model: \<open>decimal_range\<close> is
  the range in which it is the string of the code. The cells of a row are numbers and a name, never
  \<open>null\<close>, so the branch \<open>if (v == null) return ""\<close> of \<open>toCSV\<close> is never taken and is
  left out.
\<close>

definition quote_char :: char where
  "quote_char = CHR 0x22"

definition comma_char :: char where
  "comma_char = CHR '',''"

definition newline_char :: char where
  "newline_char = CHR 0x0A"

fun nat_digits :: "nat \<Rightarrow> string" where
  "nat_digits n =
     (if n < 10 then [''0123456789'' ! n]
      else nat_digits (n div 10) @ [''0123456789'' ! (n mod 10)])"

declare nat_digits.simps [simp del]

definition decimal_range :: "int \<Rightarrow> bool" where
  "decimal_range v \<longleftrightarrow> \<bar>v\<bar> < 10 ^ 21"

definition String_number :: "int \<Rightarrow> string" where
  "String_number v = (if v < 0 then CHR ''-'' # nat_digits (nat (- v)) else nat_digits (nat v))"

text \<open>\<open>Array.prototype.join\<close>.\<close>

fun join :: "string \<Rightarrow> string list \<Rightarrow> string" where
  "join sep [] = []"
| "join sep [x] = x"
| "join sep (x # y # ys) = x @ sep @ join sep (y # ys)"

text \<open>\<open>s.replace(/"/g, '""')\<close>.\<close>

definition double_quotes :: "string \<Rightarrow> string" where
  "double_quotes s = concat (map (\<lambda>c. if c = quote_char then [quote_char, quote_char] else [c]) s)"

text \<open>
  The quoting that both serializers apply to the string of a cell (the function \<open>escape\<close>
  of \<open>toCSV\<close>, the arrow function in \<open>exportCsv\<close>).
\<close>

definition escape :: "string \<Rightarrow> string" where
  "escape s =
     (if quote_char \<in> set s \<or> comma_char \<in> set s \<or> newline_char \<in> set s
      then [quote_char] @ double_quotes s @ [quote_char]
      else s)"

subsection \<open>toCSV (unnamed/part_000)\<close>

record CreativeRow0 =
  row_id :: int
  row_impressions :: int
  row_installs :: int
  row_paidEvents :: int

definition toCSV :: "CreativeRow0 list \<Rightarrow> string" where
  "toCSV rows =
     (if length rows = 0 then []
      else (let headers = [''creative_id'', ''impressions'', ''installs'', ''paid_events''];
                lines = join [comma_char] headers #
                        map (\<lambda>r. join [comma_char]
                                    [escape (String_number (row_id r)),
                                     escape (String_number (row_impressions r)),
                                     escape (String_number (row_installs r)),
                                     escape (String_number (row_paidEvents r))]) rows
            in join [newline_char] lines))"

subsection \<open>exportCsv (app/page.tsx)\<close>

record CreativeRow =
  index :: int
  name :: string
  impressions :: int
  clicks :: int
  installs :: int
  primaryEvents :: int
  secondaryEvents :: int

datatype cell = Text string | Number int

fun String_cell :: "cell \<Rightarrow> string" where
  "String_cell (Text s) = s"
| "String_cell (Number v) = String_number v"

text \<open>
  The header row: \<open>[...].filter(Boolean)\<close> drops the \<open>undefined\<close> that stands for the disabled
  second event, and every label that is the empty string.
\<close>

definition csv_headers :: "string \<Rightarrow> string \<Rightarrow> bool \<Rightarrow> string list" where
  "csv_headers primaryEventLabel secondaryEventLabel secondaryEventEnabled =
     map the (filter (\<lambda>h. h \<noteq> None \<and> h \<noteq> Some [])
       [Some ''Creative'', Some ''Impressions'', Some ''Clicks'', Some ''Installs'',
        Some primaryEventLabel,
        if secondaryEventEnabled then Some secondaryEventLabel else None])"

definition csv_cols :: "bool \<Rightarrow> CreativeRow \<Rightarrow> cell list" where
  "csv_cols secondaryEventEnabled row =
     [Text (name row), Number (impressions row), Number (clicks row), Number (installs row),
      Number (primaryEvents row)] @
     (if secondaryEventEnabled then [Number (secondaryEvents row)] else [])"

text \<open>
  \<open>exportCsv\<close> returns early when there is no row; otherwise the text \<open>csv\<close> that it
  hands to the download is the result.
\<close>

definition exportCsv :: "CreativeRow list \<Rightarrow> string \<Rightarrow> string \<Rightarrow> bool \<Rightarrow> string option" where
  "exportCsv creatives primaryEventLabel secondaryEventLabel secondaryEventEnabled =
     (if length creatives = 0 then None
      else (let headers = csv_headers primaryEventLabel secondaryEventLabel secondaryEventEnabled;
                lines = [join [comma_char] headers] @
                        map (\<lambda>row. join [comma_char]
                                      (map (\<lambda>v. escape (String_cell v))
                                         (csv_cols secondaryEventEnabled row))) creatives
            in Some (join [newline_char] lines)))"

subsection \<open>A standard CSV parser\<close>

text \<open>
  The reader that the specification has in mind when it speaks of re-parsing with a
  standard parser, written from RFC 4180: records are separated by line feeds and fields by
  commas; a field that starts with a double quote runs to the closing double quote, and
  inside it two double quotes stand for one. It is not part of the program.
\<close>

datatype parse_state = FieldStart | Unquoted | Quoted | QuoteInQuoted

fun standard_parse_from ::
  "parse_state \<Rightarrow> string \<Rightarrow> string list \<Rightarrow> string list list \<Rightarrow> string \<Rightarrow> string list list" where
  "standard_parse_from st cur row rows [] = rows @ [row @ [cur]]"
| "standard_parse_from st cur row rows (c # cs) =
     (if st = Quoted then
        (if c = quote_char then standard_parse_from QuoteInQuoted cur row rows cs
         else standard_parse_from Quoted (cur @ [c]) row rows cs)
      else if c = comma_char then standard_parse_from FieldStart [] (row @ [cur]) rows cs
      else if c = newline_char then standard_parse_from FieldStart [] [] (rows @ [row @ [cur]]) cs
      else if c = quote_char \<and> st = FieldStart then standard_parse_from Quoted cur row rows cs
      else if c = quote_char \<and> st = QuoteInQuoted
           then standard_parse_from Quoted (cur @ [quote_char]) row rows cs
      else standard_parse_from Unquoted (cur @ [c]) row rows cs)"

definition standard_parse :: "string \<Rightarrow> string list list" where
  "standard_parse text = standard_parse_from FieldStart [] [] [] text"

subsection \<open>Auxiliary notions\<close>

text \<open>
  A string is clean when \<open>escape\<close> leaves it as it is; \<open>csv_line\<close> is a line whose
  fields were all written by \<open>escape\<close>; \<open>toCSV_fields\<close> are the strings of the cells of
  a row of \<open>toCSV\<close>.
\<close>

definition clean :: "string \<Rightarrow> bool" where
  "clean s \<longleftrightarrow> quote_char \<notin> set s \<and> comma_char \<notin> set s \<and> newline_char \<notin> set s"

definition at_separator :: "string \<Rightarrow> bool" where
  "at_separator rest \<longleftrightarrow> (case rest of [] \<Rightarrow> True | c # cs \<Rightarrow> c = comma_char \<or> c = newline_char)"

definition csv_line :: "string list \<Rightarrow> string" where
  "csv_line flds = join [comma_char] (map escape flds)"

definition toCSV_fields :: "CreativeRow0 \<Rightarrow> string list" where
  "toCSV_fields r =
     [String_number (row_id r), String_number (row_impressions r),
      String_number (row_installs r), String_number (row_paidEvents r)]"

section \<open>Properties of the rounding\<close>

lemma bit_length_bounds:
  "0 < n \<Longrightarrow> 2 ^ nat (bit_length n - 1) \<le> n \<and> n < 2 ^ nat (bit_length n)"
proof (induction n rule: bit_length.induct)
  case (1 n)
  have bl: "bit_length n = bit_length (n div 2) + 1"
    using "1.prems" by (subst bit_length.simps) simp
  show ?case
  proof (cases "n div 2 \<le> 0")
    case True
    with "1.prems" have "n = 1" by presburger
    then show ?thesis
      by (simp add: bit_length.simps [of 1] bit_length.simps [of 0])
  next
    case False
    then have pos: "0 < n div 2" by simp
    have ih: "2 ^ nat (bit_length (n div 2) - 1) \<le> n div 2 \<and>
              n div 2 < 2 ^ nat (bit_length (n div 2))"
      using "1.prems" pos by (intro "1.IH") simp_all
    have ge1: "1 \<le> bit_length (n div 2)"
    proof (rule ccontr)
      assume "\<not> 1 \<le> bit_length (n div 2)"
      then have "nat (bit_length (n div 2)) = 0" by simp
      with ih have "n div 2 < 1" by simp
      with pos show False by simp
    qed
    have e: "nat (bit_length (n div 2)) = Suc (nat (bit_length (n div 2) - 1))"
      using ge1 by simp
    have "2 ^ nat (bit_length n - 1) = (2::int) ^ nat (bit_length (n div 2))"
      using bl by simp
    also have "\<dots> = 2 * 2 ^ nat (bit_length (n div 2) - 1)"
      by (subst e) simp
    also have "\<dots> \<le> 2 * (n div 2)"
      using ih by simp
    also have "\<dots> \<le> n" by presburger
    finally have lo: "2 ^ nat (bit_length n - 1) \<le> n" .
    have "n < 2 * (n div 2) + 2" by presburger
    also have "\<dots> \<le> 2 * 2 ^ nat (bit_length (n div 2))"
      using ih by simp
    also have "\<dots> = 2 ^ nat (bit_length n)"
      using bl ge1 by (simp add: nat_add_distrib)
    finally have hi: "n < 2 ^ nat (bit_length n)" .
    from lo hi show ?thesis ..
  qed
qed

lemma bit_length_pos: "0 < n \<Longrightarrow> 1 \<le> bit_length n"
proof (rule ccontr)
  assume n: "0 < n" and "\<not> 1 \<le> bit_length n"
  then have "nat (bit_length n) = 0" by simp
  with bit_length_bounds [OF n] n show False by auto
qed

lemma binade_bounds:
  assumes "x \<noteq> 0"
  shows "power_int 2 (binade x) \<le> \<bar>x\<bar>" and "\<bar>x\<bar> < power_int 2 (binade x + 1)"
proof -
  have "power_int 2 (binade x) \<le> \<bar>x\<bar> \<and> \<bar>x\<bar> < power_int 2 (binade x + 1)"
  proof (cases "1 \<le> \<bar>x\<bar>")
    case True
    let ?n = "\<lfloor>\<bar>x\<bar>\<rfloor>"
    have n: "0 < ?n" using True by simp
    have k: "binade x = bit_length ?n - 1"
      using True by (simp add: binade_def)
    have k0: "0 \<le> bit_length ?n - 1"
      using bit_length_pos [OF n] by simp
    have "(2::real) ^ nat (bit_length ?n - 1) = of_int (2 ^ nat (bit_length ?n - 1))"
      by simp
    also have "\<dots> \<le> of_int ?n"
      using bit_length_bounds [OF n] by (simp only: of_int_le_iff)
    also have "\<dots> \<le> \<bar>x\<bar>" by simp
    finally have lo: "power_int 2 (binade x) \<le> \<bar>x\<bar>"
      using k k0 by (simp add: power_int_def)
    have "?n + 1 \<le> 2 ^ nat (bit_length ?n)"
      using bit_length_bounds [OF n] by simp
    then have "of_int (?n + 1) \<le> (of_int (2 ^ nat (bit_length ?n)) :: real)"
      by (simp only: of_int_le_iff)
    then have a: "of_int ?n + 1 \<le> (2::real) ^ nat (bit_length ?n)"
      by simp
    have b: "\<bar>x\<bar> < of_int ?n + 1"
      by linarith
    from a b have "\<bar>x\<bar> < 2 ^ nat (bit_length ?n)"
      by linarith
    then have hi: "\<bar>x\<bar> < power_int 2 (binade x + 1)"
      using k k0 by (simp add: power_int_def)
    from lo hi show ?thesis ..
  next
    case False
    let ?y = "1 / \<bar>x\<bar>"
    let ?m = "\<lceil>?y\<rceil> - 1"
    have xpos: "0 < \<bar>x\<bar>" using assms by simp
    have y1: "1 < ?y" using False xpos by simp
    have m: "0 < ?m"
    proof -
      have "1 < \<lceil>?y\<rceil>" using y1 by (simp add: less_ceiling_iff)
      then show ?thesis by simp
    qed
    let ?j = "bit_length ?m"
    have k: "binade x = - ?j"
      using False by (simp add: binade_def)
    have j1: "1 \<le> ?j" using bit_length_pos [OF m] .
    have "of_int ?m < ?y"
      using ceiling_correct [of ?y] by simp
    moreover have "(2::real) ^ nat (?j - 1) = of_int (2 ^ nat (?j - 1))" by simp
    moreover have "(of_int (2 ^ nat (?j - 1)) :: real) \<le> of_int ?m"
      using bit_length_bounds [OF m] by (simp only: of_int_le_iff)
    ultimately have ylo: "2 ^ nat (?j - 1) < ?y" by linarith
    have "\<lceil>?y\<rceil> \<le> 2 ^ nat ?j"
      using bit_length_bounds [OF m] by simp
    then have "(of_int \<lceil>?y\<rceil> :: real) \<le> of_int (2 ^ nat ?j)"
      by (simp only: of_int_le_iff)
    then have c: "(of_int \<lceil>?y\<rceil> :: real) \<le> 2 ^ nat ?j"
      by simp
    have d: "?y \<le> of_int \<lceil>?y\<rceil>"
      by (rule le_of_int_ceiling)
    from c d have yhi: "?y \<le> 2 ^ nat ?j"
      by (rule order_trans [rotated])
    have p: "(0::real) < 2 ^ nat ?j" "(0::real) < 2 ^ nat (?j - 1)" by simp_all
    have lo: "power_int 2 (binade x) \<le> \<bar>x\<bar>"
    proof -
      have "1 / 2 ^ nat ?j \<le> \<bar>x\<bar>"
        using yhi xpos p(1) by (simp add: field_simps)
      then show ?thesis
        using k j1 by (simp add: power_int_def field_simps)
    qed
    have hi: "\<bar>x\<bar> < power_int 2 (binade x + 1)"
    proof -
      have a: "\<bar>x\<bar> < 1 / 2 ^ nat (?j - 1)"
        using ylo xpos p(2) by (simp add: field_simps)
      show ?thesis
      proof (cases "?j = 1")
        case True
        then show ?thesis using a k by simp
      next
        case False
        then have "binade x + 1 < 0" "nat (- (binade x + 1)) = nat (?j - 1)"
          using k j1 by simp_all
        then show ?thesis
          using a by (simp add: power_int_def field_simps)
      qed
    qed
    from lo hi show ?thesis ..
  qed
  then show "power_int 2 (binade x) \<le> \<bar>x\<bar>" and "\<bar>x\<bar> < power_int 2 (binade x + 1)"
    by simp_all
qed

lemma round_even_error: "\<bar>of_int (round_even y) - y\<bar> \<le> 1 / 2"
proof -
  have "of_int \<lfloor>y\<rfloor> \<le> y" "y < of_int \<lfloor>y\<rfloor> + 1" by linarith+
  then show ?thesis
    by (auto simp add: round_even_def Let_def)
qed

lemma round_even_of_int: "round_even (of_int z) = z"
  by (simp add: round_even_def)


lemma fl_error: "\<bar>fl x - x\<bar> \<le> \<bar>x\<bar> / 2 ^ 53"
proof (cases "x = 0")
  case True
  then show ?thesis by (simp add: fl_def)
next
  case False
  define e where "e = binade x - 52"
  define p :: real where "p = power_int 2 e"
  define r where "r = round_even (x / p)"
  have p: "0 < p" by (simp add: p_def zero_less_power_int)
  have fl: "fl x = of_int r * p"
    using False by (simp add: fl_def Let_def e_def p_def r_def)
  have "fl x - x = (of_int r - x / p) * p"
    using p by (simp add: fl field_simps)
  then have "\<bar>fl x - x\<bar> = \<bar>of_int r - x / p\<bar> * p"
    using p by (simp add: abs_mult)
  also have "\<dots> \<le> (1 / 2) * p"
    using round_even_error [of "x / p"] p unfolding r_def
    by (intro mult_right_mono) simp_all
  finally have a: "\<bar>fl x - x\<bar> \<le> p / 2" by simp
  have "power_int (2::real) (binade x) = power_int 2 (e + 52)"
    by (simp add: e_def)
  also have "\<dots> = p * 2 ^ 52"
    by (simp add: p_def power_int_add)
  finally have "p * 2 ^ 52 \<le> \<bar>x\<bar>"
    using binade_bounds(1) [OF False] by simp
  then have "p / 2 \<le> \<bar>x\<bar> / 2 ^ 53" by simp
  with a show ?thesis by linarith
qed

lemma fl_of_int:
  assumes "\<bar>z\<bar> \<le> 2 ^ 53"
  shows "fl (of_int z) = of_int z"
proof (cases "z = 0")
  case True
  then show ?thesis by (simp add: fl_def)
next
  case False
  define k where "k = binade (of_int z)"
  have nz: "(of_int z :: real) \<noteq> 0" using False by simp
  have lo: "power_int 2 k \<le> \<bar>of_int z :: real\<bar>"
    unfolding k_def using nz by (rule binade_bounds(1))
  have "\<bar>of_int z :: real\<bar> = of_int \<bar>z\<bar>" by simp
  also have "\<dots> \<le> of_int (2 ^ 53)"
    using assms by (simp only: of_int_le_iff)
  finally have zle: "\<bar>of_int z :: real\<bar> \<le> 2 ^ 53" by simp
  have "power_int (2::real) k \<le> power_int 2 53"
    using lo zle by simp
  then have k53: "k \<le> 53"
    by (rule power_int_le_imp_le_exp [rotated]) simp_all
  have fl: "fl (of_int z) = of_int (round_even (of_int z / power_int 2 (k - 52))) * power_int 2 (k - 52)"
    using nz by (simp add: fl_def Let_def k_def)
  show ?thesis
  proof (cases "k \<le> 52")
    case True
    define n where "n = nat (52 - k)"
    have pw: "power_int (2::real) (k - 52) = 1 / 2 ^ n"
    proof (cases "k = 52")
      case True
      then show ?thesis by (simp add: n_def)
    next
      case False
      with \<open>k \<le> 52\<close> have "k - 52 < 0" by simp
      then show ?thesis by (simp add: power_int_def n_def field_simps)
    qed
    have "of_int z / power_int (2::real) (k - 52) = of_int (z * 2 ^ n)"
      by (simp add: pw)
    then have "round_even (of_int z / power_int 2 (k - 52)) = z * 2 ^ n"
      by (simp only: round_even_of_int)
    then show ?thesis
      by (simp add: fl pw)
  next
    case False
    with k53 have k: "k = 53" by simp
    have "(2::real) ^ 53 \<le> \<bar>of_int z\<bar>"
      using lo k by simp
    with zle have "\<bar>of_int z :: real\<bar> = 2 ^ 53" by simp
    then have "(of_int \<bar>z\<bar> :: real) = of_int (2 ^ 53)" by simp
    then have az: "\<bar>z\<bar> = 2 ^ 53" by (simp only: of_int_eq_iff)
    then have "z = 2 ^ 53 \<or> z = - (2 ^ 53)" by (cases "0 \<le> z") simp_all
    then have "z = 2 * (z div 2)" by auto
    then obtain h where zh: "z = 2 * h" ..
    have "of_int z / power_int (2::real) (k - 52) = of_int h"
      using k by (simp add: zh)
    then have "round_even (of_int z / power_int 2 (k - 52)) = h"
      by (simp only: round_even_of_int)
    then have "fl (of_int z) = of_int h * 2"
      using k by (simp add: fl)
    also have "\<dots> = of_int z" by (simp add: zh)
    finally show ?thesis .
  qed
qed

lemma fl_nonneg: "0 \<le> x \<Longrightarrow> 0 \<le> fl x"
proof -
  assume x: "0 \<le> x"
  have "\<bar>x\<bar> / 2 ^ 53 \<le> x" using x by (simp add: field_simps)
  with fl_error [of x] show ?thesis by linarith
qed

lemma fl_neg: "x < 0 \<Longrightarrow> fl x < 0"
proof -
  assume x: "x < 0"
  have "\<bar>x\<bar> / 2 ^ 53 < - x" using x by (simp add: field_simps)
  with fl_error [of x] show ?thesis by linarith
qed

lemma add_int_exact: "\<bar>a + b\<bar> \<le> 2 ^ 53 \<Longrightarrow> add_int a b = a + b"
proof -
  assume "\<bar>a + b\<bar> \<le> 2 ^ 53"
  then have "fl (of_int (a + b)) = of_int (a + b)" by (rule fl_of_int)
  then show ?thesis by (simp add: add_int_def)
qed

lemma sub_int_exact: "\<bar>a - b\<bar> \<le> 2 ^ 53 \<Longrightarrow> sub_int a b = a - b"
proof -
  assume "\<bar>a - b\<bar> \<le> 2 ^ 53"
  then have "fl (of_int (a - b)) = of_int (a - b)" by (rule fl_of_int)
  then show ?thesis by (simp add: sub_int_def)
qed

section \<open>Properties of the weight generators\<close>




lemma generateWeights_loop_length:
  "length (generateWeights_loop style rnd count i raw) = length raw + nat (count - i)"
proof (induction style rnd count i raw rule: generateWeights_loop.induct)
  case (1 style rnd count i raw)
  show ?case
  proof (cases "i < count")
    case True
    with "1" show ?thesis
      by (subst generateWeights_loop.simps) (simp add: nat_diff_distrib)
  next
    case False
    then show ?thesis
      by (subst generateWeights_loop.simps) simp
  qed
qed


lemma generateWeights_page_loop_length:
  "length (generateWeights_page_loop factor rnd count i ws) = length ws + nat (count - i)"
proof (induction factor rnd count i ws rule: generateWeights_page_loop.induct)
  case (1 factor rnd count i ws)
  show ?case
  proof (cases "i < count")
    case True
    with "1" show ?thesis
      by (subst generateWeights_page_loop.simps) (simp add: nat_diff_distrib)
  next
    case False
    then show ?thesis
      by (subst generateWeights_page_loop.simps) simp
  qed
qed





lemma generateWeights_length: "length (generateWeights count style rnd) = nat count"
  by (simp add: generateWeights_def Let_def generateWeights_loop_length)

lemma generateWeights_page_length: "length (generateWeights_page count variance rnd) = nat count"
  by (simp add: generateWeights_page_def Let_def generateWeights_page_loop_length)




section \<open>Properties of the running-remainder allocator\<close>

lemma distribute_loop_done:
  "\<not> i < length weights \<Longrightarrow> distribute_loop tot weights i remaining result = result"
  by (subst distribute_loop.simps) simp

lemma distribute_loop_last:
  "i < length weights \<Longrightarrow> i = length weights - 1 \<Longrightarrow>
   distribute_loop tot weights i remaining result = result[i := remaining]"
  by (subst distribute_loop.simps) (simp add: distribute_loop_done)

lemma distribute_loop_step:
  "i < length weights \<Longrightarrow> i \<noteq> length weights - 1 \<Longrightarrow>
   distribute_loop tot weights i remaining result =
   distribute_loop tot weights (i + 1)
     (sub_int remaining (Math_round (fl (of_int tot * weights ! i))))
     (result[i := Math_round (fl (of_int tot * weights ! i))])"
  by (subst distribute_loop.simps) (simp add: Let_def)

lemma distribute_loop_length:
  "length result = length weights \<Longrightarrow>
   length (distribute_loop tot weights i remaining result) = length weights"
proof (induction tot weights i remaining result rule: distribute_loop.induct)
  case (1 tot weights i remaining result)
  show ?case
  proof (cases "i < length weights")
    case False
    with "1.prems" show ?thesis
      by (simp add: distribute_loop_done)
  next
    case True
    show ?thesis
    proof (cases "i = length weights - 1")
      case True
      with \<open>i < length weights\<close> "1.prems" show ?thesis
        by (simp add: distribute_loop_last)
    next
      case False
      with \<open>i < length weights\<close> "1.IH"(2) "1.prems" show ?thesis
        by (simp add: distribute_loop_step)
    qed
  qed
qed

lemma sum_list_take_update:
  "i < length xs \<Longrightarrow> sum_list (take (Suc i) (xs[i := v])) = sum_list (take i xs) + (v::int)"
  by (simp add: take_Suc_conv_app_nth)

text \<open>
  The loop conserves the total as long as the running remainder is computed exactly: when
  the values still to be subtracted are between 0 and \<open>B\<close> and the remainder cannot leave
  the range of the integers that a number holds exactly.
\<close>

lemma distribute_loop_sum:
  "i < length weights \<Longrightarrow> length result = length weights \<Longrightarrow> 0 \<le> B \<Longrightarrow>
   \<forall>j. i \<le> j \<and> j < length weights - 1 \<longrightarrow>
       0 \<le> Math_round (fl (of_int tot * weights ! j)) \<and>
       Math_round (fl (of_int tot * weights ! j)) \<le> B \<Longrightarrow>
   remaining \<le> 2 ^ 53 \<Longrightarrow> - (2 ^ 53) \<le> remaining - int (length weights - 1 - i) * B \<Longrightarrow>
   sum_list (distribute_loop tot weights i remaining result) = sum_list (take i result) + remaining"
proof (induction tot weights i remaining result rule: distribute_loop.induct)
  case (1 tot weights i remaining result)
  show ?case
  proof (cases "i = length weights - 1")
    case True
    have "distribute_loop tot weights i remaining result = result[i := remaining]"
      using True "1.prems" by (simp add: distribute_loop_last)
    moreover have "sum_list (result[i := remaining]) = sum_list (take i result) + remaining"
      using True "1.prems"(1,2) sum_list_take_update [of i result remaining] by simp
    ultimately show ?thesis by simp
  next
    case False
    define v where "v = Math_round (fl (of_int tot * weights ! i))"
    have less: "i < length weights - 1"
      using False "1.prems"(1) by arith
    have v: "0 \<le> v" "v \<le> B"
      using "1.prems"(4) less by (simp_all add: v_def)
    have steps: "int (length weights - 1 - i) = int (length weights - 1 - (i + 1)) + 1"
      using less by simp
    have low: "- (2 ^ 53) \<le> remaining - v - int (length weights - 1 - (i + 1)) * B"
    proof -
      have "remaining - int (length weights - 1 - i) * B =
            remaining - B - int (length weights - 1 - (i + 1)) * B"
        by (subst steps) (simp add: algebra_simps)
      with "1.prems"(6) v(2) show ?thesis by linarith
    qed
    have "0 \<le> int (length weights - 1 - (i + 1)) * B"
      using "1.prems"(3) by simp
    with low have "- (2 ^ 53) \<le> remaining - v" by linarith
    moreover have "remaining - v \<le> 2 ^ 53"
      using "1.prems"(5) v(1) by linarith
    ultimately have exact: "sub_int remaining v = remaining - v"
      by (intro sub_int_exact) simp
    have step: "distribute_loop tot weights i remaining result =
                distribute_loop tot weights (i + 1) (remaining - v) (result[i := v])"
      using False "1.prems"(1) exact unfolding v_def by (simp add: distribute_loop_step)
    have "sum_list (distribute_loop tot weights (i + 1) (sub_int remaining v) (result[i := v])) =
          sum_list (take (i + 1) (result[i := v])) + sub_int remaining v"
      unfolding v_def
    proof (rule "1.IH"(2) [OF "1.prems"(1) False refl refl])
      show "i + 1 < length weights"
        using less by arith
      show "length (result[i := Math_round (fl (of_int tot * weights ! i))]) = length weights"
        using "1.prems"(2) by simp
      show "0 \<le> B"
        by (rule "1.prems"(3))
      show "\<forall>j. i + 1 \<le> j \<and> j < length weights - 1 \<longrightarrow>
              0 \<le> Math_round (fl (of_int tot * weights ! j)) \<and>
              Math_round (fl (of_int tot * weights ! j)) \<le> B"
        using "1.prems"(4) by simp
      show "sub_int remaining (Math_round (fl (of_int tot * weights ! i))) \<le> 2 ^ 53"
        using exact "1.prems"(5) v(1) unfolding v_def by linarith
      show "- (2 ^ 53) \<le> sub_int remaining (Math_round (fl (of_int tot * weights ! i))) -
              int (length weights - 1 - (i + 1)) * B"
        using exact low unfolding v_def by linarith
    qed
    then have "sum_list (distribute_loop tot weights (i + 1) (remaining - v) (result[i := v])) =
          sum_list (take (i + 1) (result[i := v])) + (remaining - v)"
      by (simp only: exact)
    also have "\<dots> = sum_list (take i result) + remaining"
      using "1.prems"(1,2) sum_list_take_update [of i result v] by simp
    finally show ?thesis using step by simp
  qed
qed


lemma distribute_loop_nth_old:
  "k < i \<Longrightarrow> distribute_loop tot weights i remaining result ! k = result ! k"
proof (induction tot weights i remaining result rule: distribute_loop.induct)
  case (1 tot weights i remaining result)
  show ?case
  proof (cases "i < length weights")
    case False
    then show ?thesis
      by (simp add: distribute_loop_done)
  next
    case True
    show ?thesis
    proof (cases "i = length weights - 1")
      case True
      with \<open>i < length weights\<close> "1.prems" show ?thesis
        by (simp add: distribute_loop_last)
    next
      case False
      with \<open>i < length weights\<close> "1.IH"(2) "1.prems" show ?thesis
        by (simp add: distribute_loop_step)
    qed
  qed
qed

lemma distribute_loop_nth:
  "i \<le> k \<Longrightarrow> k < length weights - 1 \<Longrightarrow> length result = length weights \<Longrightarrow>
   distribute_loop tot weights i remaining result ! k = Math_round (fl (of_int tot * weights ! k))"
proof (induction tot weights i remaining result rule: distribute_loop.induct)
  case (1 tot weights i remaining result)
  define v where "v = Math_round (fl (of_int tot * weights ! i))"
  have less: "i < length weights" and notlast: "i \<noteq> length weights - 1"
    using "1.prems" by arith+
  have step: "distribute_loop tot weights i remaining result =
              distribute_loop tot weights (i + 1) (sub_int remaining v) (result[i := v])"
    using less notlast unfolding v_def by (intro distribute_loop_step)
  show ?case
  proof (cases "i = k")
    case True
    then show ?thesis
      using step "1.prems"
        distribute_loop_nth_old [of k "k + 1" tot weights "sub_int remaining v" "result[i := v]"]
      by (simp add: v_def)
  next
    case False
    have "distribute_loop tot weights (i + 1) (sub_int remaining v) (result[i := v]) ! k =
          Math_round (fl (of_int tot * weights ! k))"
      using False "1.prems" less notlast unfolding v_def
      by (intro "1.IH"(2)) auto
    then show ?thesis using step by simp
  qed
qed

lemma sum_list_replicate_zero: "sum_list (replicate n (0::int)) = 0"
  by (induction n) simp_all

lemma distribute_length: "length (distribute tot weights) = length weights"
  by (simp add: distribute_def distribute_loop_length)

lemma distribute_nth:
  "0 < tot \<Longrightarrow> k < length weights - 1 \<Longrightarrow>
   distribute tot weights ! k = Math_round (fl (of_int tot * weights ! k))"
  by (auto simp add: distribute_def distribute_loop_nth)

lemma Math_round_nonneg: "0 \<le> v \<Longrightarrow> 0 \<le> Math_round v"
  by (simp add: Math_round_def)

lemma Math_round_nonpos: "v < 0 \<Longrightarrow> Math_round v \<le> 0"
proof -
  assume "v < 0"
  then have "v + 1 / 2 < 1" by simp
  then have "\<lfloor>v + 1 / 2\<rfloor> < 1" by (simp add: floor_less_iff)
  then show ?thesis unfolding Math_round_def by linarith
qed

lemma Math_floor_neg: "v < 0 \<Longrightarrow> Math_floor v + 1 \<le> 0"
proof -
  assume "v < 0"
  then have "\<lfloor>v\<rfloor> < 0" by (simp add: floor_less_iff)
  then show ?thesis unfolding Math_floor_def by linarith
qed

text \<open>
  The rounded share of one bucket, for a weight of at most \<open>1 + t\<close> and a total \<open>T\<close> whose
  accumulated rounding stays below one unit: between 0 and \<open>T + 1\<close>.
\<close>

lemma raw_share_bounds:
  assumes "0 \<le> w" and "w \<le> 1 + t" and "0 \<le> T"
    and "T * (t + (1 + t) / 2 ^ 53) < 1"
  shows "0 \<le> fl (T * w)" and "fl (T * w) < T + 1"
proof -
  have nn: "0 \<le> T * w" using assms by simp
  then show "0 \<le> fl (T * w)" by (rule fl_nonneg)
  have "fl (T * w) \<le> T * w + \<bar>T * w\<bar> / 2 ^ 53"
    using fl_error [of "T * w"] by linarith
  also have "\<dots> = (T * w) * (1 + 1 / 2 ^ 53)"
    using nn by (simp add: algebra_simps)
  also have "\<dots> \<le> (T * (1 + t)) * (1 + 1 / 2 ^ 53)"
    using assms by (intro mult_right_mono mult_left_mono) simp_all
  also have "\<dots> = T + T * (t + (1 + t) / 2 ^ 53)"
    by (simp add: algebra_simps)
  also have "\<dots> < T + 1"
    using assms(4) by simp
  finally show "fl (T * w) < T + 1" .
qed

lemma rounded_share_bounds:
  assumes "0 \<le> w" and "w \<le> 1 + t" and "0 \<le> tot"
    and "of_int tot * (t + (1 + t) / 2 ^ 53) < (1::real)"
  shows "0 \<le> Math_round (fl (of_int tot * w))" and "Math_round (fl (of_int tot * w)) \<le> tot + 1"
proof -
  have T: "(0::real) \<le> of_int tot" using assms(3) by simp
  have lo: "0 \<le> fl (of_int tot * w)" and hi: "fl (of_int tot * w) < of_int tot + 1"
    using raw_share_bounds [OF assms(1,2) T assms(4)] by simp_all
  show "0 \<le> Math_round (fl (of_int tot * w))"
    using lo by (rule Math_round_nonneg)
  have "fl (of_int tot * w) + 1 / 2 < of_int (tot + 2)"
    using hi by simp
  then have "\<lfloor>fl (of_int tot * w) + 1 / 2\<rfloor> < tot + 2"
    by (simp only: floor_less_iff)
  then show "Math_round (fl (of_int tot * w)) \<le> tot + 1"
    by (simp add: Math_round_def)
qed

lemma distribute_sum:
  assumes "weights \<noteq> []" and "0 \<le> tot"
    and "\<forall>w \<in> set weights. 0 \<le> w \<and> w \<le> 1 + t"
    and "of_int tot * (t + (1 + t) / 2 ^ 53) < (1::real)"
    and "int (length weights) * (tot + 1) \<le> 2 ^ 53"
  shows "sum_list (distribute tot weights) = tot"
proof (cases "tot = 0")
  case True
  then show ?thesis
    by (simp add: distribute_def sum_list_replicate_zero)
next
  case False
  let ?n = "length weights"
  have n: "0 < ?n" using assms(1) by simp
  define X where "X = int ?n * (tot + 1)"
  have X53: "X \<le> 2 ^ 53"
    using assms(5) by (simp add: X_def)
  have "1 \<le> int ?n" using n by linarith
  then have "1 * (tot + 1) \<le> int ?n * (tot + 1)"
    using assms(2) by (intro mult_right_mono) simp_all
  then have TX: "tot + 1 \<le> X"
    by (simp add: X_def)
  have T53: "tot \<le> 2 ^ 53"
    using TX X53 by linarith
  have "int (?n - 1 - 0) = int ?n - 1"
    using n by arith
  then have "int (?n - 1 - 0) * (tot + 1) = X - (tot + 1)"
    by (simp only: X_def) (simp add: algebra_simps)
  then have low: "- (2 ^ 53) \<le> tot - int (?n - 1 - 0) * (tot + 1)"
    using assms(2) X53 by linarith
  have vals: "\<forall>j. 0 \<le> j \<and> j < ?n - 1 \<longrightarrow>
      0 \<le> Math_round (fl (of_int tot * weights ! j)) \<and>
      Math_round (fl (of_int tot * weights ! j)) \<le> tot + 1"
  proof (intro allI impI)
    fix j assume "0 \<le> j \<and> j < ?n - 1"
    then have "weights ! j \<in> set weights" by simp
    then have "0 \<le> weights ! j" "weights ! j \<le> 1 + t"
      using assms(3) by simp_all
    then show "0 \<le> Math_round (fl (of_int tot * weights ! j)) \<and>
      Math_round (fl (of_int tot * weights ! j)) \<le> tot + 1"
      using rounded_share_bounds [OF _ _ assms(2) assms(4)] by simp
  qed
  have "sum_list (distribute_loop tot weights 0 tot (replicate ?n 0)) =
        sum_list (take 0 (replicate ?n 0)) + tot"
    using n assms(2) vals T53 low
    by (intro distribute_loop_sum [where B = "tot + 1"]) simp_all
  then show ?thesis
    using False assms(1,2) by (simp add: distribute_def)
qed

lemma distribute_nonneg_but_last:
  assumes "\<forall>w \<in> set weights. 0 \<le> w" and "k < length weights - 1"
  shows "0 \<le> distribute tot weights ! k"
proof (cases "0 < tot")
  case True
  have "k < length weights"
    using assms(2) by arith
  then have "0 \<le> of_int tot * weights ! k"
    using assms(1) True by simp
  then have "0 \<le> fl (of_int tot * weights ! k)"
    by (rule fl_nonneg)
  then show ?thesis
    using distribute_nth [OF True assms(2)] by (simp add: Math_round_nonneg)
next
  case False
  have "k < length weights"
    using assms(2) by arith
  with False show ?thesis
    by (simp add: distribute_def)
qed

section \<open>Properties of the largest-remainder allocator\<close>

lemma award_loop_done:
  "\<not> (remainder > 0 \<and> i < length fr) \<Longrightarrow> award_loop fr remainder i result = (result, remainder, i)"
  by (subst award_loop.simps) auto

lemma award_loop_step:
  "remainder > 0 \<Longrightarrow> i < length fr \<Longrightarrow>
   award_loop fr remainder i result =
   award_loop fr (sub_int remainder 1) (i + 1)
     (result[fst (fr ! i) := add_int (result ! fst (fr ! i)) 1])"
  by (subst award_loop.simps) simp

lemma award_loop_length: "length (fst (award_loop fr remainder i result)) = length result"
proof (induction fr remainder i result rule: award_loop.induct)
  case (1 fr remainder i result)
  show ?case
  proof (cases "remainder > 0 \<and> i < length fr")
    case True
    with "1.IH" show ?thesis by (simp add: award_loop_step)
  next
    case False
    then show ?thesis by (simp add: award_loop_done)
  qed
qed

lemma award_loop_iterations:
  "i \<le> length fr \<Longrightarrow> snd (snd (award_loop fr remainder i result)) \<le> length fr"
proof (induction fr remainder i result rule: award_loop.induct)
  case (1 fr remainder i result)
  show ?case
  proof (cases "remainder > 0 \<and> i < length fr")
    case True
    with "1.IH" show ?thesis by (simp add: award_loop_step)
  next
    case False
    with "1.prems" show ?thesis by (simp add: award_loop_done)
  qed
qed

lemma sum_list_bump:
  "k < length xs \<Longrightarrow> sum_list (xs[k := xs ! k + 1]) = sum_list xs + (1::int)"
proof (induction xs arbitrary: k)
  case Nil
  then show ?case by simp
next
  case (Cons x xs)
  then show ?case by (cases k) simp_all
qed

text \<open>
  The loop adds one unit per iteration as long as the units are added exactly: when no
  entry can leave the range of the integers that a number holds exactly.
\<close>

lemma award_loop_sum:
  "\<forall>e \<in> set fr. fst e < length result \<Longrightarrow> 0 \<le> remainder \<Longrightarrow> remainder \<le> 2 ^ 53 \<Longrightarrow>
   \<forall>x \<in> set result. - (2 ^ 53) \<le> x \<and> x + remainder \<le> 2 ^ 53 \<Longrightarrow>
   sum_list (fst (award_loop fr remainder i result)) =
   sum_list result + min remainder (int (length fr - i))"
proof (induction fr remainder i result rule: award_loop.induct)
  case (1 fr remainder i result)
  show ?case
  proof (cases "remainder > 0 \<and> i < length fr")
    case True
    let ?k = "fst (fr ! i)"
    let ?r = "result[?k := result ! ?k + 1]"
    have k: "?k < length result"
      using True "1.prems"(1) by simp
    then have "result ! ?k \<in> set result" by simp
    then have "- (2 ^ 53) \<le> result ! ?k" "result ! ?k + remainder \<le> 2 ^ 53"
      using "1.prems"(4) by simp_all
    then have "\<bar>result ! ?k + 1\<bar> \<le> 2 ^ 53"
      using True by linarith
    then have bump: "add_int (result ! ?k) 1 = result ! ?k + 1"
      by (rule add_int_exact)
    have "\<bar>remainder - 1\<bar> \<le> 2 ^ 53"
      using True "1.prems"(3) by linarith
    then have dec: "sub_int remainder 1 = remainder - 1"
      by (rule sub_int_exact)
    have step: "award_loop fr remainder i result = award_loop fr (remainder - 1) (i + 1) ?r"
      using True by (simp add: award_loop_step bump dec)
    have inv: "\<forall>x \<in> set ?r. - (2 ^ 53) \<le> x \<and> x + (remainder - 1) \<le> 2 ^ 53"
    proof
      fix x assume "x \<in> set ?r"
      then have "x \<in> insert (result ! ?k + 1) (set result)"
        using set_update_subset_insert by fastforce
      then consider "x = result ! ?k + 1" | "x \<in> set result" by auto
      then show "- (2 ^ 53) \<le> x \<and> x + (remainder - 1) \<le> 2 ^ 53"
      proof cases
        case 1
        then show ?thesis
          using \<open>- (2 ^ 53) \<le> result ! ?k\<close> \<open>result ! ?k + remainder \<le> 2 ^ 53\<close> by linarith
      next
        case 2
        then have "- (2 ^ 53) \<le> x" "x + remainder \<le> 2 ^ 53"
          using "1.prems"(4) by simp_all
        then show ?thesis by linarith
      qed
    qed
    have "sum_list (fst (award_loop fr (sub_int remainder 1) (i + 1)
            (result[?k := add_int (result ! ?k) 1]))) =
          sum_list (result[?k := add_int (result ! ?k) 1]) +
            min (sub_int remainder 1) (int (length fr - (i + 1)))"
    proof (rule "1.IH" [OF True])
      show "\<forall>e \<in> set fr. fst e < length (result[?k := add_int (result ! ?k) 1])"
        using "1.prems"(1) by simp
      show "0 \<le> sub_int remainder 1"
        using True dec by simp
      show "sub_int remainder 1 \<le> 2 ^ 53"
        using "1.prems"(3) dec by simp
      show "\<forall>x \<in> set (result[?k := add_int (result ! ?k) 1]).
              - (2 ^ 53) \<le> x \<and> x + sub_int remainder 1 \<le> 2 ^ 53"
        using inv by (simp only: bump dec)
    qed
    then have "sum_list (fst (award_loop fr (remainder - 1) (i + 1) ?r)) =
          sum_list ?r + min (remainder - 1) (int (length fr - (i + 1)))"
      by (simp only: bump dec)
    also have "\<dots> = sum_list result + min remainder (int (length fr - i))"
      using True k by (simp add: sum_list_bump min_def)
    finally show ?thesis
      using step by simp
  next
    case False
    with "1.prems" show ?thesis by (auto simp add: award_loop_done min_def)
  qed
qed

lemma award_loop_untouched:
  "k \<notin> fst ` set (drop i fr) \<Longrightarrow> fst (award_loop fr remainder i result) ! k = result ! k"
proof (induction fr remainder i result rule: award_loop.induct)
  case (1 fr remainder i result)
  show ?case
  proof (cases "remainder > 0 \<and> i < length fr")
    case True
    have here: "fr ! i \<in> set (drop i fr)"
      using True by (metis Cons_nth_drop_Suc list.set_intros(1))
    then have ne: "fst (fr ! i) \<noteq> k"
      using "1.prems" by auto
    have "set (drop (i + 1) fr) \<subseteq> set (drop i fr)"
      by (simp add: set_drop_subset_set_drop)
    then have "k \<notin> fst ` set (drop (i + 1) fr)"
      using "1.prems" by auto
    with True "1.IH" ne show ?thesis by (simp add: award_loop_step)
  next
    case False
    then show ?thesis by (simp add: award_loop_done)
  qed
qed

lemma award_loop_nth:
  "distinct (map fst fr) \<Longrightarrow> k < length result \<Longrightarrow>
   fst (award_loop fr remainder i result) ! k = result ! k \<or>
   fst (award_loop fr remainder i result) ! k = add_int (result ! k) 1"
proof (induction fr remainder i result rule: award_loop.induct)
  case (1 fr remainder i result)
  show ?case
  proof (cases "remainder > 0 \<and> i < length fr")
    case True
    let ?j = "fst (fr ! i)"
    let ?r = "result[?j := add_int (result ! ?j) 1]"
    show ?thesis
    proof (cases "?j = k")
      case same: True
      have "distinct (map fst (drop i fr))"
        using "1.prems"(1) by (simp add: distinct_drop flip: drop_map)
      moreover have "drop i fr = fr ! i # drop (i + 1) fr"
        using True by (simp add: Cons_nth_drop_Suc)
      ultimately have "k \<notin> fst ` set (drop (i + 1) fr)"
        using same by auto
      then have "fst (award_loop fr (sub_int remainder 1) (i + 1) ?r) ! k = ?r ! k"
        by (rule award_loop_untouched)
      then show ?thesis
        using True same "1.prems"(2) by (simp add: award_loop_step)
    next
      case False
      have "fst (award_loop fr (sub_int remainder 1) (i + 1) ?r) ! k = ?r ! k \<or>
            fst (award_loop fr (sub_int remainder 1) (i + 1) ?r) ! k = add_int (?r ! k) 1"
        using True "1.prems" by (intro "1.IH") auto
      then show ?thesis
        using True False by (simp add: award_loop_step)
    qed
  next
    case False
    then show ?thesis by (simp add: award_loop_done)
  qed
qed

lemma map_fst_frac_entries: "map fst (frac_entries rawValues floors) = [0 ..< length rawValues]"
  by (simp add: frac_entries_def comp_def)

lemma set_sort_frac: "set (sort_frac fr) = set fr"
  by (simp add: sort_frac_def)

lemma length_sort_frac: "length (sort_frac fr) = length fr"
  by (simp add: sort_frac_def)

lemma distinct_sort_frac: "distinct (map fst (sort_frac fr)) = distinct (map fst fr)"
  by (simp add: sort_frac_def distinct_map)

lemma frac_entries_index:
  "e \<in> set (sort_frac (frac_entries rawValues floors)) \<Longrightarrow> fst e < length rawValues"
  by (auto simp add: set_sort_frac frac_entries_def)

lemma distinct_sorted_entries:
  "distinct (map fst (sort_frac (frac_entries rawValues floors)))"
  by (simp add: distinct_sort_frac map_fst_frac_entries)

lemma floors_le_sum: "of_int (sum_list (map Math_floor xs)) \<le> sum_list xs"
proof (induction xs)
  case Nil
  then show ?case by simp
next
  case (Cons x xs)
  have "of_int (Math_floor x) \<le> x"
    by (simp add: Math_floor_def)
  with Cons show ?case by simp
qed

lemma sum_less_floors:
  "xs \<noteq> [] \<Longrightarrow> sum_list xs < of_int (sum_list (map Math_floor xs)) + real (length xs)"
proof (induction xs)
  case Nil
  then show ?case by simp
next
  case (Cons x xs)
  have x: "x < of_int (Math_floor x) + 1"
    by (simp add: Math_floor_def)
  show ?case
  proof (cases "xs = []")
    case True
    with x show ?thesis by simp
  next
    case False
    with Cons.IH x show ?thesis by simp
  qed
qed

lemma sum_list_scaled: "sum_list (map (\<lambda>w. w * c) ws) = sum_list ws * (c::real)"
  by (induction ws) (simp_all add: distrib_right)

lemma foldl_add_int_exact:
  "\<forall>x \<in> set xs. 0 \<le> x \<Longrightarrow> 0 \<le> a \<Longrightarrow> a + sum_list xs \<le> 2 ^ 53 \<Longrightarrow>
   foldl add_int a xs = a + sum_list xs"
proof (induction xs arbitrary: a)
  case Nil
  then show ?case by simp
next
  case (Cons x xs)
  have nn: "0 \<le> sum_list xs"
    using Cons.prems(1) by (intro sum_list_nonneg) simp
  have x: "0 \<le> x" using Cons.prems(1) by simp
  have "\<bar>a + x\<bar> \<le> 2 ^ 53"
    using Cons.prems(2,3) x nn by simp
  then have e: "add_int a x = a + x"
    by (rule add_int_exact)
  have "foldl add_int (a + x) xs = (a + x) + sum_list xs"
    using Cons.prems x by (intro Cons.IH) simp_all
  then show ?case by (simp add: e)
qed

lemma reduce_add_int_exact:
  "\<forall>x \<in> set xs. 0 \<le> x \<Longrightarrow> sum_list xs \<le> 2 ^ 53 \<Longrightarrow> reduce_add_int xs = sum_list xs"
  using foldl_add_int_exact [of xs 0] by (simp add: reduce_add_int_def)

lemma distributeIntegerTotal_length: "length (distributeIntegerTotal tot weights) = length weights"
  by (simp add: distributeIntegerTotal_def Let_def award_loop_length)

lemma distributeIntegerTotal_nth:
  assumes "0 < tot" and "k < length weights"
  shows "distributeIntegerTotal tot weights ! k = Math_floor (fl (weights ! k * of_int tot)) \<or>
         distributeIntegerTotal tot weights ! k =
           add_int (Math_floor (fl (weights ! k * of_int tot))) 1"
proof -
  let ?raw = "map (\<lambda>w. fl (w * of_int tot)) weights"
  let ?floors = "map Math_floor ?raw"
  let ?fr = "sort_frac (frac_entries ?raw ?floors)"
  let ?rem = "sub_int tot (reduce_add_int ?floors)"
  have eq: "distributeIntegerTotal tot weights = fst (award_loop ?fr ?rem 0 ?floors)"
    using assms by (auto simp add: distributeIntegerTotal_def Let_def)
  have "fst (award_loop ?fr ?rem 0 ?floors) ! k = ?floors ! k \<or>
        fst (award_loop ?fr ?rem 0 ?floors) ! k = add_int (?floors ! k) 1"
    using assms(2) by (intro award_loop_nth distinct_sorted_entries) simp
  moreover have "?floors ! k = Math_floor (fl (weights ! k * of_int tot))"
    using assms(2) by simp
  ultimately show ?thesis
    using eq by simp
qed

lemma member_le_sum_list_int:
  "\<forall>x \<in> set xs. 0 \<le> x \<Longrightarrow> x \<in> set xs \<Longrightarrow> x \<le> sum_list (xs :: int list)"
proof (induction xs)
  case Nil
  then show ?case by simp
next
  case (Cons y ys)
  have nn: "0 \<le> sum_list ys"
    using Cons.prems(1) by (intro sum_list_nonneg) simp
  show ?case
  proof (cases "x = y")
    case True
    with nn show ?thesis by simp
  next
    case False
    with Cons have "x \<le> sum_list ys" by simp
    moreover have "0 \<le> y" using Cons.prems(1) by simp
    ultimately show ?thesis by simp
  qed
qed

text \<open>The rounding error of the raw shares, summed over the buckets.\<close>

lemma raw_shares_error:
  "\<forall>w \<in> set ws. 0 \<le> w \<Longrightarrow> 0 \<le> T \<Longrightarrow>
   \<bar>sum_list (map (\<lambda>w. fl (w * T)) ws) - sum_list ws * T\<bar> \<le> sum_list ws * T / 2 ^ 53"
proof (induction ws)
  case Nil
  then show ?case by simp
next
  case (Cons w ws)
  have "0 \<le> w * T" using Cons.prems by simp
  then have w: "\<bar>fl (w * T) - w * T\<bar> \<le> w * T / 2 ^ 53"
    using fl_error [of "w * T"] by simp
  have ih: "\<bar>sum_list (map (\<lambda>w. fl (w * T)) ws) - sum_list ws * T\<bar> \<le> sum_list ws * T / 2 ^ 53"
    using Cons.prems by (intro Cons.IH) simp_all
  have "sum_list (map (\<lambda>w. fl (w * T)) (w # ws)) - sum_list (w # ws) * T =
        (fl (w * T) - w * T) + (sum_list (map (\<lambda>w. fl (w * T)) ws) - sum_list ws * T)"
    by (simp add: algebra_simps)
  moreover have "sum_list (w # ws) * T / 2 ^ 53 = w * T / 2 ^ 53 + sum_list ws * T / 2 ^ 53"
    by (simp add: algebra_simps add_divide_distrib)
  ultimately show ?case
    using w ih by linarith
qed

lemma distributeIntegerTotal_sum:
  assumes "0 < tot" and "weights \<noteq> []" and "\<forall>w \<in> set weights. 0 \<le> w"
    and "\<bar>sum_list weights - 1\<bar> \<le> t"
    and "of_int tot * (t + (1 + t) / 2 ^ 53) < (1::real)"
  shows "sum_list (distributeIntegerTotal tot weights) = tot"
proof -
  let ?T = "of_int tot :: real"
  let ?raw = "map (\<lambda>w. fl (w * ?T)) weights"
  let ?floors = "map Math_floor ?raw"
  let ?fr = "sort_frac (frac_entries ?raw ?floors)"
  define F where "F = sum_list ?floors"
  have T: "0 < ?T" using assms(1) by simp
  have t: "0 \<le> t" using assms(4) by linarith
  have S: "sum_list weights \<le> 1 + t" "1 - t \<le> sum_list weights"
    using assms(4) by linarith+
  have budget: "?T * t + ?T * (1 + t) / 2 ^ 53 < 1"
    using assms(5) by (simp add: algebra_simps)
  \<comment> \<open>the total is below \<open>2 ^ 53\<close>\<close>
  have "?T / 2 ^ 53 \<le> ?T * (1 + t) / 2 ^ 53"
    using T t by (simp add: divide_le_cancel mult_le_cancel_left1)
  moreover have "0 \<le> ?T * t" using T t by simp
  ultimately have "?T / 2 ^ 53 < 1" using budget by linarith
  then have "?T < 2 ^ 53" by simp
  then have "of_int tot < (of_int (2 ^ 53) :: real)" by simp
  then have tot53: "tot < 2 ^ 53" by (simp only: of_int_less_iff)
  \<comment> \<open>the raw shares sum to the total within less than one unit\<close>
  define a where "a = sum_list ?raw"
  define b where "b = sum_list weights * ?T"
  define c where "c = b / 2 ^ 53"
  define d where "d = ?T * (1 + t) / 2 ^ 53"
  define g where "g = ?T * t"
  have e1: "\<bar>a - b\<bar> \<le> c"
    unfolding a_def b_def c_def using assms(3) T by (intro raw_shares_error) simp_all
  have "b \<le> ?T * (1 + t)"
    unfolding b_def using S(1) T by (simp add: mult.commute)
  then have e2: "c \<le> d"
    unfolding c_def d_def by (simp add: divide_le_cancel)
  have e3: "\<bar>b - ?T\<bar> \<le> g"
  proof -
    have "b - ?T = (sum_list weights - 1) * ?T"
      by (simp add: b_def algebra_simps)
    then have "\<bar>b - ?T\<bar> = \<bar>sum_list weights - 1\<bar> * ?T"
      using T by (simp add: abs_mult)
    also have "\<dots> \<le> t * ?T"
      using assms(4) T by (intro mult_right_mono) simp_all
    finally show ?thesis by (simp add: g_def mult.commute)
  qed
  have "g + d < 1"
    using budget by (simp add: g_def d_def)
  with e1 e2 e3 have "\<bar>a - ?T\<bar> < 1"
    by linarith
  then have near: "\<bar>sum_list ?raw - ?T\<bar> < 1"
    by (simp add: a_def)
  \<comment> \<open>the floors\<close>
  have raw_nn: "\<forall>r \<in> set ?raw. 0 \<le> r"
    using assms(3) T by (auto intro!: fl_nonneg)
  have floors_nn: "\<forall>x \<in> set ?floors. 0 \<le> x"
    using raw_nn by (auto simp add: Math_floor_def)
  have F_nn: "0 \<le> F"
    unfolding F_def using floors_nn by (intro sum_list_nonneg) blast
  have "of_int F \<le> sum_list ?raw"
    unfolding F_def by (rule floors_le_sum)
  with near have "of_int F < ?T + 1" by linarith
  then have "(of_int F :: real) < of_int (tot + 1)" by simp
  then have "F < tot + 1" by (simp only: of_int_less_iff)
  then have F_le: "F \<le> tot" by simp
  have raw_ne: "?raw \<noteq> []" using assms(2) by simp
  have "sum_list ?raw < of_int F + real (length ?raw)"
    unfolding F_def using raw_ne by (rule sum_less_floors)
  with near have "?T - 1 < of_int F + real (length weights)" by simp
  then have "(of_int (tot - 1) :: real) < of_int (F + int (length weights))"
    by simp
  then have F_ge: "tot - 1 < F + int (length weights)"
    by (simp only: of_int_less_iff)
  \<comment> \<open>the sum of the floors and the remainder are computed exactly\<close>
  have assigned: "reduce_add_int ?floors = F"
    unfolding F_def using floors_nn
  proof (rule reduce_add_int_exact)
    show "sum_list ?floors \<le> 2 ^ 53"
      using F_le tot53 by (simp add: F_def)
  qed
  have "\<bar>tot - F\<bar> \<le> 2 ^ 53"
    using F_nn F_le tot53 by linarith
  then have remainder: "sub_int tot F = tot - F"
    by (rule sub_int_exact)
  have eq: "distributeIntegerTotal tot weights = fst (award_loop ?fr (tot - F) 0 ?floors)"
  proof -
    have "distributeIntegerTotal tot weights =
          fst (award_loop ?fr (sub_int tot (reduce_add_int ?floors)) 0 ?floors)"
      using assms(1,2) by (auto simp add: distributeIntegerTotal_def Let_def)
    then show ?thesis
      by (simp only: assigned remainder)
  qed
  have idx: "\<forall>e \<in> set ?fr. fst e < length ?floors"
    using frac_entries_index [of _ ?raw ?floors] by simp
  have range: "\<forall>x \<in> set ?floors. - (2 ^ 53) \<le> x \<and> x + (tot - F) \<le> 2 ^ 53"
  proof
    fix x assume x: "x \<in> set ?floors"
    then have "0 \<le> x" using floors_nn by blast
    moreover have "x \<le> F"
      unfolding F_def using floors_nn x by (rule member_le_sum_list_int)
    moreover have "(0::int) < 2 ^ 53" by simp
    ultimately show "- (2 ^ 53) \<le> x \<and> x + (tot - F) \<le> 2 ^ 53"
      using tot53 by linarith
  qed
  have "sum_list (fst (award_loop ?fr (tot - F) 0 ?floors)) =
        sum_list ?floors + min (tot - F) (int (length ?fr - 0))"
    using idx
  proof (rule award_loop_sum)
    show "0 \<le> tot - F" using F_le by simp
    show "tot - F \<le> 2 ^ 53"
      using F_nn tot53 by linarith
    show "\<forall>x \<in> set ?floors. - (2 ^ 53) \<le> x \<and> x + (tot - F) \<le> 2 ^ 53"
      by (rule range)
  qed
  also have "int (length ?fr - 0) = int (length weights)"
    by (simp add: length_sort_frac frac_entries_def)
  also have "sum_list ?floors + min (tot - F) (int (length weights)) = tot"
    using F_ge by (simp add: F_def min_def)
  finally show ?thesis
    using eq by simp
qed

lemma distributeIntegerTotal_nonneg:
  assumes "\<forall>w \<in> set weights. 0 \<le> w" and "k < length weights"
  shows "0 \<le> distributeIntegerTotal tot weights ! k"
proof (cases "0 < tot")
  case True
  let ?f = "Math_floor (fl (weights ! k * of_int tot))"
  have "0 \<le> weights ! k * of_int tot"
    using assms True by simp
  then have "0 \<le> fl (weights ! k * of_int tot)"
    by (rule fl_nonneg)
  then have f: "0 \<le> ?f"
    by (simp add: Math_floor_def)
  then have "0 \<le> fl (of_int ?f + of_int 1)"
    by (intro fl_nonneg) simp
  then have "0 \<le> add_int ?f 1"
    by (simp add: add_int_def)
  with f show ?thesis
    using distributeIntegerTotal_nth [OF True assms(2)] by auto
next
  case False
  then show ?thesis
    using assms(2) by (simp add: distributeIntegerTotal_def)
qed

section \<open>The claims about the allocators and the generators\<close>

lemma sum_list_map_zero: "sum_list (map (\<lambda>w. 0::int) ws) = 0"
  by (induction ws) simp_all

lemma member_le_sum_list_real:
  "\<forall>x \<in> set xs. 0 \<le> x \<Longrightarrow> x \<in> set xs \<Longrightarrow> x \<le> sum_list (xs :: real list)"
proof (induction xs)
  case Nil
  then show ?case by simp
next
  case (Cons y ys)
  have nn: "0 \<le> sum_list ys"
    using Cons.prems(1) by (intro sum_list_nonneg) simp
  show ?case
  proof (cases "x = y")
    case True
    with nn show ?thesis by simp
  next
    case False
    with Cons have "x \<le> sum_list ys" by simp
    moreover have "0 \<le> y" using Cons.prems(1) by simp
    ultimately show ?thesis by simp
  qed
qed

text \<open>
  C1 (amended). Conservation holds when there is at least one bucket and the total is small
  enough for the rounding of the numbers to stay below one unit: for every non-empty weight
  vector with non-negative entries whose sum is within \<open>t\<close> of 1 (what the generator
  returns for \<open>count > 0\<close>, up to the tolerance \<open>t\<close> of its floating-point sum) and every
  total \<open>\<ge> 0\<close> with \<open>total * (t + (1 + t) / 2 ^ 53) < 1\<close> and
  \<open>length * (total + 1) \<le> 2 ^ 53\<close>, the entries of the allocation sum to the total, for the
  largest-remainder allocator and for the running-remainder allocator. With \<open>count = 0\<close>
  both return the empty vector, whose sum is 0 whatever the total.
\<close>

theorem conservation:
  assumes "weights \<noteq> []" and "\<forall>w \<in> set weights. 0 \<le> w"
    and "\<bar>sum_list weights - 1\<bar> \<le> t"
    and "0 \<le> tot" and "of_int tot * (t + (1 + t) / 2 ^ 53) < (1::real)"
    and "int (length weights) * (tot + 1) \<le> 2 ^ 53"
  shows "sum_list (distributeIntegerTotal tot weights) = tot \<and>
         sum_list (distribute tot weights) = tot"
proof
  show "sum_list (distributeIntegerTotal tot weights) = tot"
  proof (cases "tot = 0")
    case True
    then show ?thesis
      by (simp add: distributeIntegerTotal_def sum_list_map_zero)
  next
    case False
    with assms(4) have "0 < tot" by simp
    then show ?thesis
      using assms(1,2,3,5) by (rule distributeIntegerTotal_sum)
  qed
  have "\<forall>w \<in> set weights. 0 \<le> w \<and> w \<le> 1 + t"
  proof
    fix w assume w: "w \<in> set weights"
    have "w \<le> sum_list weights"
      using assms(2) w by (rule member_le_sum_list_real)
    moreover have "sum_list weights \<le> 1 + t"
      using assms(3) by linarith
    ultimately show "0 \<le> w \<and> w \<le> 1 + t"
      using assms(2) w by simp
  qed
  with assms(1,4) show "sum_list (distribute tot weights) = tot"
    using assms(5,6) by (rule distribute_sum)
qed

theorem conservation_witness:
  "generateWeights 5 Balanced (constant_draws (1 / 2)) = [1 / 5, 1 / 5, 1 / 5, 1 / 5, 1 / 5] \<and>
   sum_list (distributeIntegerTotal 7 (generateWeights 5 Balanced (constant_draws (1 / 2)))) = 7 \<and>
   sum_list (distribute 7 (generateWeights 5 Balanced (constant_draws (1 / 2)))) = 7"
  using conservation [of "generateWeights 5 Balanced (constant_draws (1 / 2))" "1 / 10 ^ 6" 7]
  by (simp add: generateWeights_def generateWeights_loop.simps constant_draws_def
      draw_weight_def reduce_add_def)

theorem conservation_counterexample:
  "sum_list (distributeIntegerTotal 1 (generateWeights 0 Balanced (constant_draws 0))) \<noteq> 1 \<and>
   sum_list (distribute 1 (generateWeights_page 0 VBalanced (constant_draws 0))) \<noteq> 1"
  by (simp add: generateWeights_def generateWeights_page_def distributeIntegerTotal_def
      distribute_def)

text \<open>
  Beyond that range the sum can miss the total: with three weights equal to the number
  written \<open>0.3333333333333333\<close> and the total \<open>10 ^ 16\<close>, the floors sum to
  \<open>9999999999999999\<close>, which the addition rounds to \<open>10 ^ 16\<close>, so that no unit remains to
  be awarded.
\<close>

lemma conservation_lost_at_large_total:
  "distributeIntegerTotal (10 ^ 16)
     [6004799503160661 / 2 ^ 54, 6004799503160661 / 2 ^ 54, 6004799503160661 / 2 ^ 54] =
   [3333333333333333, 3333333333333333, 3333333333333333]"
  by code_simp

text \<open>
  The running remainder is lost in the same way: with the same weights and the total
  \<open>10 ^ 17\<close> the entries sum to \<open>10 ^ 17 + 4\<close>.
\<close>

lemma running_remainder_lost_at_large_total:
  "distribute (10 ^ 17)
     [6004799503160661 / 2 ^ 54, 6004799503160661 / 2 ^ 54, 6004799503160661 / 2 ^ 54] =
   [33333333333333332, 33333333333333332, 33333333333333340]"
  by code_simp

text \<open>
  C2. Non-negativity fails for the running-remainder allocator on weights that the generator
  produces: with five equal weights and total 3, each of the first four buckets rounds its
  raw share 0.6 up to 1 and the last bucket absorbs \<open>3 - 4 = -1\<close>.
\<close>

theorem distribute_negative_entry:
  "generateWeights_page 5 VBalanced (constant_draws 0) = [1 / 5, 1 / 5, 1 / 5, 1 / 5, 1 / 5] \<and>
   distribute 3 (generateWeights_page 5 VBalanced (constant_draws 0)) = [1, 1, 1, 1, - 1]"
  by code_simp

text \<open>
  What does hold: on non-negative weights the largest-remainder allocator returns
  non-negative entries only (lemma \<open>distributeIntegerTotal_nonneg\<close>), and so does the
  running-remainder allocator in every bucket but the last (lemma
  \<open>distribute_nonneg_but_last\<close>).
\<close>

text \<open>
  C3 (amended). For every weight vector and every bucket whose weight is negative, both
  allocators return a vector of the length of the weights, and the negative weight is not
  clamped to a share of 0. With a total \<open>\<le> 0\<close> every share is 0. With a total \<open>> 0\<close> the
  raw share \<open>raw = total * weight\<close> of the bucket is negative; in the largest-remainder
  allocator, for \<open>raw \<ge> - 2 ^ 53\<close>, the share is \<open>Math.floor(raw)\<close> or one more, so it is at
  most 0 and it is negative whenever \<open>raw < - 1\<close>; in the running-remainder allocator the
  share of every such bucket but the last is \<open>Math.round(raw)\<close>, so it is at most 0 and it
  is negative whenever \<open>raw < - 1 / 2\<close>.
\<close>

theorem negative_weight_share:
  assumes "k < length weights" and "weights ! k < 0"
  shows "length (distributeIntegerTotal tot weights) = length weights \<and>
         length (distribute tot weights) = length weights \<and>
         (tot \<le> 0 \<longrightarrow> distributeIntegerTotal tot weights ! k = 0 \<and>
                      distribute tot weights ! k = 0) \<and>
         (0 < tot \<longrightarrow>
            fl (weights ! k * of_int tot) < 0 \<and>
            (- (2 ^ 53) \<le> fl (weights ! k * of_int tot) \<longrightarrow>
               (distributeIntegerTotal tot weights ! k = Math_floor (fl (weights ! k * of_int tot)) \<or>
                distributeIntegerTotal tot weights ! k =
                  Math_floor (fl (weights ! k * of_int tot)) + 1) \<and>
               distributeIntegerTotal tot weights ! k \<le> 0 \<and>
               (fl (weights ! k * of_int tot) < - 1 \<longrightarrow>
                  distributeIntegerTotal tot weights ! k < 0)) \<and>
            (k < length weights - 1 \<longrightarrow>
               distribute tot weights ! k = Math_round (fl (weights ! k * of_int tot)) \<and>
               distribute tot weights ! k \<le> 0 \<and>
               (fl (weights ! k * of_int tot) < - 1 / 2 \<longrightarrow> distribute tot weights ! k < 0)))"
proof (cases "0 < tot")
  case True
  define r where "r = fl (weights ! k * of_int tot)"
  have "weights ! k * of_int tot < 0"
    using assms(2) True by (simp add: mult_neg_pos)
  then have neg: "r < 0"
    unfolding r_def by (rule fl_neg)
  have largest: "(distributeIntegerTotal tot weights ! k = Math_floor r \<or>
                  distributeIntegerTotal tot weights ! k = Math_floor r + 1) \<and>
                 distributeIntegerTotal tot weights ! k \<le> 0 \<and>
                 (r < - 1 \<longrightarrow> distributeIntegerTotal tot weights ! k < 0)"
    if low: "- (2 ^ 53) \<le> r"
  proof -
    have "(of_int (- (2 ^ 53)) :: real) \<le> r"
      using low by simp
    then have f_lo: "- (2 ^ 53) \<le> Math_floor r"
      unfolding Math_floor_def by (simp only: le_floor_iff)
    have f_hi: "Math_floor r + 1 \<le> 0"
      using neg by (rule Math_floor_neg)
    have "\<bar>Math_floor r + 1\<bar> \<le> 2 ^ 53"
      using f_lo f_hi by linarith
    then have "add_int (Math_floor r) 1 = Math_floor r + 1"
      by (rule add_int_exact)
    then have cases: "distributeIntegerTotal tot weights ! k = Math_floor r \<or>
                      distributeIntegerTotal tot weights ! k = Math_floor r + 1"
      using distributeIntegerTotal_nth [OF True assms(1)] by (simp add: r_def)
    have "Math_floor r + 1 < 0" if "r < - 1"
    proof -
      have "r < of_int (- 1)" using that by simp
      then have "\<lfloor>r\<rfloor> < - 1" by (simp only: floor_less_iff)
      then show ?thesis by (simp add: Math_floor_def)
    qed
    with cases f_hi show ?thesis by auto
  qed
  have running: "distribute tot weights ! k = Math_round r \<and>
                 distribute tot weights ! k \<le> 0 \<and>
                 (r < - 1 / 2 \<longrightarrow> distribute tot weights ! k < 0)"
    if "k < length weights - 1"
  proof -
    have eq: "distribute tot weights ! k = Math_round r"
      using distribute_nth [OF True that] by (simp add: r_def mult.commute)
    have "Math_round r < 0" if "r < - 1 / 2"
    proof -
      have "r + 1 / 2 < of_int 0" using that by simp
      then have "\<lfloor>r + 1 / 2\<rfloor> < 0" by (simp only: floor_less_iff)
      then show ?thesis by (simp add: Math_round_def)
    qed
    with eq Math_round_nonpos [OF neg] show ?thesis by simp
  qed
  have A: "length (distributeIntegerTotal tot weights) = length weights \<and>
           length (distribute tot weights) = length weights"
    by (simp add: distributeIntegerTotal_length distribute_length)
  have B: "tot \<le> 0 \<longrightarrow> distributeIntegerTotal tot weights ! k = 0 \<and>
                      distribute tot weights ! k = 0"
    using True by simp
  from A B neg largest running show ?thesis
    unfolding r_def by blast
next
  case False
  with assms(1) show ?thesis
    by (simp add: distributeIntegerTotal_def distribute_def distributeIntegerTotal_length
        distribute_length)
qed

theorem negative_weight_share_witness:
  "distributeIntegerTotal 10 [- 0.5, 0.75, 0.75] ! 0 < 0 \<and>
   distribute 10 [- 0.5, 0.75, 0.75] ! 0 < 0 \<and>
   fl ([- 0.5, 0.75, 0.75] ! 0 * of_int 10) = - 5 \<and>
   distributeIntegerTotal 0 [- 0.5, 0.75, 0.75] ! 0 = 0"
  using negative_weight_share [of 0 "[- 0.5, 0.75, 0.75]" 10]
    negative_weight_share [of 0 "[- 0.5, 0.75, 0.75]" 0]
  by code_simp

theorem negative_weight_counterexample:
  "distributeIntegerTotal 10 [- 0.5, 0.75, 0.75] = [- 5, 8, 7] \<and>
   distribute 10 [- 0.5, 0.75, 0.75] = [- 5, 8, 7]"
  by code_simp



text \<open>
  C5. With \<open>count = 0\<close> both generators return the empty vector, whatever the profile;
  when the total is 0 or the weights are empty, both allocators return the all-zero vector
  of the length of the weights, so the allocation over no weights is empty.
\<close>

theorem degenerate_inputs:
  "generateWeights 0 style rnd = [] \<and>
   generateWeights_page 0 variance rnd = [] \<and>
   (tot = 0 \<or> weights = [] \<longrightarrow>
      distributeIntegerTotal tot weights = replicate (length weights) 0 \<and>
      distribute tot weights = replicate (length weights) 0) \<and>
   distributeIntegerTotal tot [] = [] \<and>
   distribute tot [] = []"
  by (auto simp add: generateWeights_def generateWeights_page_def distributeIntegerTotal_def
      distribute_def map_replicate_const)

theorem degenerate_inputs_witness:
  "distributeIntegerTotal 0 [0.5, 0.5] = [0, 0] \<and> distribute 0 [0.5, 0.5] = [0, 0] \<and>
   distributeIntegerTotal 7 [] = [] \<and> distribute 7 [] = []"
  using degenerate_inputs [of Balanced "constant_draws 0" VBalanced 0 "[0.5, 0.5]"]
    degenerate_inputs [of Balanced "constant_draws 0" VBalanced 7 "[]"]
  by simp

text \<open>
  C6. The example of the largest-remainder allocator: total 10 over the weights
  \<open>[0.5, 0.3, 0.2]\<close> gives \<open>[5, 3, 2]\<close>, and over \<open>[0.34, 0.33, 0.33]\<close> the floors are
  \<open>[3, 3, 3]\<close>, one unit remains and goes to index 0, which gives \<open>[4, 3, 3]\<close>.
\<close>

theorem largest_remainder_examples:
  "distributeIntegerTotal 10 [0.5, 0.3, 0.2] = [5, 3, 2] \<and>
   map Math_floor (map (\<lambda>w. w * 10) [0.34, 0.33, 0.33]) = [3, 3, 3] \<and>
   distributeIntegerTotal 10 [0.34, 0.33, 0.33] = [4, 3, 3]"
  by code_simp

text \<open>
  C7. The vector that an allocator returns has the length of the weight vector, for every
  total and every weight vector (of any length, so of the lengths 0 to 1000 too).
\<close>

theorem length_invariant:
  "length (distributeIntegerTotal tot weights) = length weights \<and>
   length (distribute tot weights) = length weights"
  by (simp add: distributeIntegerTotal_length distribute_length)

text \<open>
  C9. The generators return the empty vector for every \<open>count \<le> 0\<close> and produce exactly
  \<open>count\<close> weights otherwise (one loop iteration each); the allocators return the all-zero
  vector for every negative total. All four functions and their loops are total: each loop
  is defined with a measure that decreases (\<open>count - i\<close>, or the length of the weights minus
  \<open>i\<close>). The \<open>while\<close> loop of the largest-remainder allocator stops with \<open>i\<close> at most the
  number of weights, and every index it writes is inside the result.
\<close>

theorem totality_and_clamping:
  "(count \<le> 0 \<longrightarrow> generateWeights count style rnd = [] \<and>
                  generateWeights_page count variance rnd = []) \<and>
   length (generateWeights count style rnd) = nat count \<and>
   length (generateWeights_page count variance rnd) = nat count \<and>
   (tot < 0 \<longrightarrow> distributeIntegerTotal tot weights = replicate (length weights) 0 \<and>
                distribute tot weights = replicate (length weights) 0) \<and>
   length (distributeIntegerTotal tot weights) = length weights \<and>
   length (distribute tot weights) = length weights \<and>
   snd (snd (award_loop (sort_frac (frac_entries rawValues floors)) remainder 0 result))
     \<le> length rawValues \<and>
   (\<forall>e \<in> set (sort_frac (frac_entries rawValues floors)). fst e < length rawValues)"
proof -
  have "snd (snd (award_loop (sort_frac (frac_entries rawValues floors)) remainder 0 result))
        \<le> length (sort_frac (frac_entries rawValues floors))"
    by (rule award_loop_iterations) simp
  then have "snd (snd (award_loop (sort_frac (frac_entries rawValues floors)) remainder 0 result))
        \<le> length rawValues"
    by (simp add: length_sort_frac frac_entries_def)
  moreover have "\<forall>e \<in> set (sort_frac (frac_entries rawValues floors)). fst e < length rawValues"
    using frac_entries_index by blast
  moreover have "tot < 0 \<longrightarrow> distributeIntegerTotal tot weights = replicate (length weights) 0 \<and>
                distribute tot weights = replicate (length weights) 0"
    by (simp add: distributeIntegerTotal_def distribute_def map_replicate_const)
  moreover have "count \<le> 0 \<longrightarrow> generateWeights count style rnd = [] \<and>
                  generateWeights_page count variance rnd = []"
    by (simp add: generateWeights_def generateWeights_page_def)
  ultimately show ?thesis
    by (simp add: generateWeights_length generateWeights_page_length
        distributeIntegerTotal_length distribute_length)
qed

theorem totality_and_clamping_witness:
  "generateWeights (- 2) High (constant_draws 0) = [] \<and>
   generateWeights_page (- 2) VHigh (constant_draws 0) = [] \<and>
   distributeIntegerTotal (- 4) [0.5, 0.5] = [0, 0] \<and>
   distribute (- 4) [0.5, 0.5] = [0, 0] \<and>
   fst (0 :: nat, 4 / 10 :: real) < length [3.4, 3.3, 3.3 :: real]"
  using totality_and_clamping [of "- 2" High "constant_draws 0" VHigh "- 4" "[0.5, 0.5]"
      "[3.4, 3.3, 3.3]" "[3, 3, 3]" 1 "[3, 3, 3]"]
  by simp

text \<open>
  C10 (amended). For every total \<open>> 0\<close> and every weight vector with non-negative entries,
  each entry \<open>i\<close> of the result of the largest-remainder allocator whose raw share, as the
  code computes it (the product \<open>total * weights[i]\<close> rounded to a number), is below
  \<open>2 ^ 53\<close> is \<open>Math.floor\<close> of that raw share, or that floor plus one. The floor of the
  exact product can be smaller, and from \<open>2 ^ 53\<close> on the unit is not added exactly.
\<close>

theorem rounding_bound:
  assumes "0 < tot" and "\<forall>w \<in> set weights. 0 \<le> w" and "i < length weights"
    and "fl (weights ! i * of_int tot) < 2 ^ 53"
  shows "distributeIntegerTotal tot weights ! i = Math_floor (fl (weights ! i * of_int tot)) \<or>
         distributeIntegerTotal tot weights ! i = Math_floor (fl (weights ! i * of_int tot)) + 1"
proof -
  let ?r = "fl (weights ! i * of_int tot)"
  have "0 \<le> weights ! i * of_int tot"
    using assms(1,2,3) by simp
  then have "0 \<le> ?r" by (rule fl_nonneg)
  then have lo: "0 \<le> Math_floor ?r"
    by (simp add: Math_floor_def)
  have "?r < of_int (2 ^ 53)"
    using assms(4) by simp
  then have "\<lfloor>?r\<rfloor> < 2 ^ 53"
    by (simp only: floor_less_iff)
  then have hi: "Math_floor ?r < 2 ^ 53"
    by (simp add: Math_floor_def)
  have "\<bar>Math_floor ?r + 1\<bar> \<le> 2 ^ 53"
    using lo hi by linarith
  then have "add_int (Math_floor ?r) 1 = Math_floor ?r + 1"
    by (rule add_int_exact)
  then show ?thesis
    using distributeIntegerTotal_nth [OF assms(1) assms(3)] by simp
qed

theorem rounding_bound_witness:
  "fl ([0.34, 0.33, 0.33] ! 0 * of_int 10) < 2 ^ 53 \<and>
   Math_floor (fl ([0.34, 0.33, 0.33] ! 0 * of_int 10)) = 3 \<and>
   distributeIntegerTotal 10 [0.34, 0.33, 0.33] ! 0 = 4"
  using rounding_bound [of 10 "[0.34, 0.33, 0.33]" 0]
  by code_simp

theorem rounding_bound_counterexample:
  "distributeIntegerTotal 3 [6004799503160661 / 2 ^ 54] = [2] \<and>
   \<lfloor>of_int 3 * (6004799503160661 / 2 ^ 54 :: real)\<rfloor> = 0 \<and>
   distributeIntegerTotal 9007199254740996 [9007199254740991 / 2 ^ 53] = [9007199254740996] \<and>
   \<lfloor>of_int 9007199254740996 * (9007199254740991 / 2 ^ 53 :: real)\<rfloor> = 9007199254740994 \<and>
   Math_floor (fl (9007199254740991 / 2 ^ 53 * of_int 9007199254740996)) = 9007199254740994"
  by code_simp

section \<open>Properties of the CSV export\<close>

lemma special_chars_distinct:
  "quote_char \<noteq> comma_char" "quote_char \<noteq> newline_char" "comma_char \<noteq> newline_char"
  "comma_char \<noteq> quote_char" "newline_char \<noteq> quote_char" "newline_char \<noteq> comma_char"
  by (simp_all add: quote_char_def comma_char_def newline_char_def)

lemma escape_clean: "clean s \<Longrightarrow> escape s = s"
  by (simp add: escape_def clean_def)

lemma escape_not_clean: "\<not> clean s \<Longrightarrow> escape s = [quote_char] @ double_quotes s @ [quote_char]"
  by (auto simp add: escape_def clean_def)

lemma parse_at_separator:
  "at_separator rest \<Longrightarrow> st \<noteq> Quoted \<Longrightarrow>
   standard_parse_from st cur row rows rest = standard_parse_from Unquoted cur row rows rest"
  by (cases rest) (auto simp add: at_separator_def special_chars_distinct)

lemma parse_clean_chars:
  "clean f \<Longrightarrow> st = FieldStart \<or> st = Unquoted \<Longrightarrow> at_separator rest \<Longrightarrow>
   standard_parse_from st cur row rows (f @ rest) =
   standard_parse_from Unquoted (cur @ f) row rows rest"
proof (induction f arbitrary: st cur)
  case Nil
  then show ?case
    using parse_at_separator [of rest st cur row rows] by auto
next
  case (Cons c f)
  have c: "c \<noteq> quote_char" "c \<noteq> comma_char" "c \<noteq> newline_char" and f: "clean f"
    using Cons.prems(1) by (auto simp add: clean_def)
  have "standard_parse_from st cur row rows ((c # f) @ rest) =
        standard_parse_from Unquoted (cur @ [c]) row rows (f @ rest)"
    using c Cons.prems(2) by auto
  also have "\<dots> = standard_parse_from Unquoted ((cur @ [c]) @ f) row rows rest"
    using f Cons.prems(3) by (intro Cons.IH) simp_all
  finally show ?case by simp
qed

lemma parse_quoted_chars:
  "at_separator rest \<Longrightarrow>
   standard_parse_from Quoted cur row rows (double_quotes f @ quote_char # rest) =
   standard_parse_from Unquoted (cur @ f) row rows rest"
proof (induction f arbitrary: cur)
  case Nil
  then show ?case
    using parse_at_separator [of rest QuoteInQuoted cur row rows]
    by (simp add: double_quotes_def)
next
  case (Cons c f)
  have "standard_parse_from Quoted cur row rows (double_quotes (c # f) @ quote_char # rest) =
        standard_parse_from Quoted (cur @ [c]) row rows (double_quotes f @ quote_char # rest)"
    by (simp add: double_quotes_def special_chars_distinct)
  also have "\<dots> = standard_parse_from Unquoted ((cur @ [c]) @ f) row rows rest"
    using Cons.prems by (rule Cons.IH)
  finally show ?case by simp
qed

text \<open>A field written by \<open>escape\<close> is read back verbatim, up to the separator after it.\<close>

lemma parse_escaped_field:
  assumes "at_separator rest"
  shows "standard_parse_from FieldStart [] row rows (escape f @ rest) =
         standard_parse_from Unquoted f row rows rest"
proof (cases "clean f")
  case True
  then show ?thesis
    using parse_clean_chars [of f FieldStart rest "[]" row rows] assms
    by (simp add: escape_clean)
next
  case False
  then show ?thesis
    using parse_quoted_chars [OF assms, of "[]" row rows f]
    by (simp add: escape_not_clean special_chars_distinct)
qed

lemma at_separator_comma: "at_separator (comma_char # cs)"
  by (simp add: at_separator_def)

lemma at_separator_newline: "at_separator (newline_char # cs)"
  by (simp add: at_separator_def)

lemma at_separator_end: "at_separator []"
  by (simp add: at_separator_def)

lemma parse_line:
  "flds \<noteq> [] \<Longrightarrow> rest = [] \<or> (\<exists>cs. rest = newline_char # cs) \<Longrightarrow>
   standard_parse_from FieldStart [] row rows (csv_line flds @ rest) =
   standard_parse_from Unquoted (last flds) (row @ butlast flds) rows rest"
proof (induction flds arbitrary: row)
  case Nil
  then show ?case by simp
next
  case (Cons f flds)
  show ?case
  proof (cases flds)
    case Nil
    have "at_separator rest"
      using Cons.prems(2) by (auto simp add: at_separator_def)
    then show ?thesis
      using Nil by (simp add: csv_line_def parse_escaped_field)
  next
    case (Cons g gs)
    have "standard_parse_from FieldStart [] row rows (csv_line (f # flds) @ rest) =
          standard_parse_from FieldStart [] row rows
            (escape f @ comma_char # (csv_line flds @ rest))"
      using Cons by (simp add: csv_line_def)
    also have "\<dots> = standard_parse_from Unquoted f row rows (comma_char # (csv_line flds @ rest))"
      by (rule parse_escaped_field) (rule at_separator_comma)
    also have "\<dots> = standard_parse_from FieldStart [] (row @ [f]) rows (csv_line flds @ rest)"
      by (simp add: special_chars_distinct)
    also have "\<dots> = standard_parse_from Unquoted (last flds) ((row @ [f]) @ butlast flds) rows rest"
      using Cons Cons.prems(2) by (intro Cons.IH) simp_all
    finally show ?thesis
      using Cons by simp
  qed
qed

lemma parse_lines:
  "ls \<noteq> [] \<Longrightarrow> \<forall>l \<in> set ls. l \<noteq> [] \<Longrightarrow>
   standard_parse_from FieldStart [] [] rows (join [newline_char] (map csv_line ls)) = rows @ ls"
proof (induction ls arbitrary: rows)
  case Nil
  then show ?case by simp
next
  case (Cons l ls)
  have l: "l \<noteq> []"
    using Cons.prems(2) by simp
  show ?case
  proof (cases ls)
    case Nil
    have "standard_parse_from FieldStart [] [] rows (csv_line l @ []) =
          standard_parse_from Unquoted (last l) ([] @ butlast l) rows []"
      using l by (intro parse_line) simp_all
    then show ?thesis
      using Nil l by simp
  next
    case (Cons m ms)
    let ?rest = "join [newline_char] (map csv_line ls)"
    have "standard_parse_from FieldStart [] [] rows (join [newline_char] (map csv_line (l # ls))) =
          standard_parse_from FieldStart [] [] rows (csv_line l @ newline_char # ?rest)"
      using Cons by simp
    also have "\<dots> = standard_parse_from Unquoted (last l) ([] @ butlast l) rows (newline_char # ?rest)"
      using l by (intro parse_line) simp_all
    also have "\<dots> = standard_parse_from FieldStart [] [] (rows @ [l]) ?rest"
      using l by (simp add: special_chars_distinct)
    also have "\<dots> = (rows @ [l]) @ ls"
      using Cons Cons.prems(2) by (intro Cons.IH) simp_all
    finally show ?thesis by simp
  qed
qed

text \<open>
  Every text of lines whose fields were all written by \<open>escape\<close> is read back by the
  standard parser as the fields that were written. The two lemmas on \<open>toCSV\<close> and
  \<open>exportCsv\<close> are for cells in the range where \<open>String_number\<close> is the string of the code.
\<close>

lemma standard_parse_escaped:
  "ls \<noteq> [] \<Longrightarrow> \<forall>l \<in> set ls. l \<noteq> [] \<Longrightarrow>
   standard_parse (join [newline_char] (map csv_line ls)) = ls"
  using parse_lines [of ls "[]"] by (simp add: standard_parse_def)


lemma toCSV_roundtrip:
  assumes "rows \<noteq> []"
    and "\<forall>r \<in> set rows. decimal_range (row_id r) \<and> decimal_range (row_impressions r) \<and>
           decimal_range (row_installs r) \<and> decimal_range (row_paidEvents r)"
  shows "standard_parse (toCSV rows) =
         [''creative_id'', ''impressions'', ''installs'', ''paid_events''] # map toCSV_fields rows"
proof -
  let ?headers = "[''creative_id'', ''impressions'', ''installs'', ''paid_events'']"
  have h: "join [comma_char] ?headers = csv_line ?headers"
    by (simp add: csv_line_def escape_def quote_char_def comma_char_def newline_char_def)
  have "toCSV rows = join [newline_char] (map csv_line (?headers # map toCSV_fields rows))"
    using assms(1) unfolding toCSV_def Let_def h
    by (simp add: csv_line_def toCSV_fields_def comp_def)
  moreover have "standard_parse (join [newline_char] (map csv_line (?headers # map toCSV_fields rows)))
        = ?headers # map toCSV_fields rows"
    by (rule standard_parse_escaped) (auto simp add: toCSV_fields_def)
  ultimately show ?thesis by simp
qed

lemma join_clean: "\<forall>h \<in> set hs. clean h \<Longrightarrow> join [comma_char] hs = csv_line hs"
  by (simp add: csv_line_def escape_clean cong: map_cong)

lemma exportCsv_roundtrip_clean_labels:
  assumes "creatives \<noteq> []" and "clean primaryEventLabel"
    and "secondaryEventEnabled \<longrightarrow> clean secondaryEventLabel"
    and "\<forall>row \<in> set creatives. decimal_range (impressions row) \<and> decimal_range (clicks row) \<and>
           decimal_range (installs row) \<and> decimal_range (primaryEvents row) \<and>
           decimal_range (secondaryEvents row)"
  shows "\<exists>csv. exportCsv creatives primaryEventLabel secondaryEventLabel secondaryEventEnabled
             = Some csv \<and>
           standard_parse csv =
             csv_headers primaryEventLabel secondaryEventLabel secondaryEventEnabled #
             map (\<lambda>row. map String_cell (csv_cols secondaryEventEnabled row)) creatives"
proof -
  let ?hs = "csv_headers primaryEventLabel secondaryEventLabel secondaryEventEnabled"
  let ?cells = "\<lambda>row. map String_cell (csv_cols secondaryEventEnabled row)"
  have "\<forall>h \<in> set ?hs. clean h"
    using assms(2,3)
    by (auto simp add: csv_headers_def clean_def quote_char_def comma_char_def newline_char_def)
  then have h: "join [comma_char] ?hs = csv_line ?hs"
    by (rule join_clean)
  have ne: "?hs \<noteq> []"
    by (simp add: csv_headers_def)
  have "exportCsv creatives primaryEventLabel secondaryEventLabel secondaryEventEnabled =
        Some (join [newline_char] (map csv_line (?hs # map ?cells creatives)))"
    using assms(1) unfolding exportCsv_def Let_def h
    by (simp add: csv_line_def comp_def)
  moreover have "standard_parse (join [newline_char] (map csv_line (?hs # map ?cells creatives)))
        = ?hs # map ?cells creatives"
    using ne by (intro standard_parse_escaped) (auto simp add: csv_cols_def)
  ultimately show ?thesis by simp
qed

text \<open>
  C8. \<open>exportCsv\<close> quotes the cells of the rows and writes the header row with
  \<open>headers.join(",")\<close> alone, although two of the headers are labels that the user types.
  A label with a comma is written as it is and read back as two fields.
\<close>

theorem exportCsv_header_not_quoted:
  "exportCsv [\<lparr>index = 1, name = ''Creative 1'', impressions = 100, clicks = 20, installs = 3,
               primaryEvents = 1, secondaryEvents = 0\<rparr>] ''Paid,Events'' ''Second Event'' False =
     Some (''Creative,Impressions,Clicks,Installs,Paid,Events'' @ [newline_char] @
           ''Creative 1,100,20,3,1'') \<and>
   standard_parse (''Creative,Impressions,Clicks,Installs,Paid,Events'' @ [newline_char] @
                   ''Creative 1,100,20,3,1'') =
     [[''Creative'', ''Impressions'', ''Clicks'', ''Installs'', ''Paid'', ''Events''],
      [''Creative 1'', ''100'', ''20'', ''3'', ''1'']]"
  by code_simp

text \<open>
  A label that starts with a double quote opens a quoted field that never closes: the
  reader takes the rest of the text, the row included, as one header field.
\<close>

lemma exportCsv_header_quote:
  "map_option standard_parse
     (exportCsv [\<lparr>index = 1, name = ''Creative 1'', impressions = 100, clicks = 20, installs = 3,
                  primaryEvents = 1, secondaryEvents = 0\<rparr>] (quote_char # ''Paid'') ''Second Event'' False) =
   Some [[''Creative'', ''Impressions'', ''Clicks'', ''Installs'',
          ''Paid'' @ [newline_char] @ ''Creative 1,100,20,3,1'']]"
  by code_simp

end
